theory Spec2Isabelle
  imports Main "HOL-Library.Monad_Syntax"
begin

section \<open>The store: coefficient buffers, signal slots, scratch pointers\<close>

text \<open>
  The transforms of \<^verbatim>\<open>src/mpc/src/abs.c\<close> work on an array \<^verbatim>\<open>mp_limb_t ** ii\<close> of
  pointers to coefficient buffers and on scratch pointers \<^verbatim>\<open>*t1\<close>, \<^verbatim>\<open>*t2\<close>,
  \<^verbatim>\<open>*temp\<close>. A buffer is named by a natural number (its address); \<open>slot\<close> is the
  array \<^verbatim>\<open>ii\<close> (slot index to buffer), \<open>buf\<close> the memory of the buffers (buffer to
  contents). A callee that receives \<^verbatim>\<open>ii + k\<close> receives the base index \<open>k\<close>.

  Sizes (\<^verbatim>\<open>mp_size_t\<close>, \<^verbatim>\<open>mp_bitcnt_t\<close>) are natural numbers: every theorem
  below is about arguments inside the documented ranges, where no size is negative and
  no product leaves the machine word.
\<close>

record 'c state =
  slot :: "nat \<Rightarrow> nat"
  buf :: "nat \<Rightarrow> 'c"
  t1 :: nat
  t2 :: nat
  temp :: nat

definition val :: "'c state \<Rightarrow> nat \<Rightarrow> 'c" where
  "val s k = buf s (slot s k)"

text \<open>
  Modelled from the spec: the macro \<^verbatim>\<open>SWAP_PTRS\<close> is declared outside
  \<^verbatim>\<open>src/\<close>; the spec (section 3) describes it as the exchange of which buffer two
  owners hold. The source uses it in three shapes: a slot with \<^verbatim>\<open>*t1\<close>, a slot
  with \<^verbatim>\<open>*t2\<close>, and two slots.
\<close>

definition SWAP_PTRS_t1 :: "nat \<Rightarrow> 'c state \<Rightarrow> 'c state" where
  "SWAP_PTRS_t1 k s = s\<lparr>slot := (slot s)(k := t1 s), t1 := slot s k\<rparr>"

definition SWAP_PTRS_t2 :: "nat \<Rightarrow> 'c state \<Rightarrow> 'c state" where
  "SWAP_PTRS_t2 k s = s\<lparr>slot := (slot s)(k := t2 s), t2 := slot s k\<rparr>"

definition SWAP_PTRS_ii :: "nat \<Rightarrow> nat \<Rightarrow> 'c state \<Rightarrow> 'c state" where
  "SWAP_PTRS_ii a b s = s\<lparr>slot := (slot s)(a := slot s b, b := slot s a)\<rparr>"

section \<open>The external collaborators\<close>

text \<open>
  The word-level primitives and the elementary butterflies are not in \<^verbatim>\<open>src/\<close>
  (spec, section 6). They are parameters of the model: each is a function from the
  contents of its input buffers (and its size arguments) to the contents it writes.
  The source forbids aliasing between the inputs and the outputs of a butterfly, so an
  output is a function of the inputs alone.

  \<open>FLINT_BITS\<close> is the machine word width \<open>W\<close>.
\<close>

record 'c arith =
  FLINT_BITS :: nat
  butterfly_lshB :: "'c \<Rightarrow> 'c \<Rightarrow> nat \<Rightarrow> nat \<Rightarrow> nat \<Rightarrow> 'c \<times> 'c"
  mpn_mul_2expmod_2expp1 :: "'c \<Rightarrow> nat \<Rightarrow> nat \<Rightarrow> 'c"
  mpn_neg_n :: "'c \<Rightarrow> nat \<Rightarrow> 'c"
  mpn_add_n :: "'c \<Rightarrow> 'c \<Rightarrow> nat \<Rightarrow> 'c"

record 'c bfly =
  fft_butterfly :: "'c \<Rightarrow> 'c \<Rightarrow> nat \<Rightarrow> nat \<Rightarrow> nat \<Rightarrow> 'c \<times> 'c"
  fft_butterfly_sqrt2 :: "'c \<Rightarrow> 'c \<Rightarrow> nat \<Rightarrow> nat \<Rightarrow> nat \<Rightarrow> 'c \<times> 'c \<times> 'c"
  fft_adjust :: "'c \<Rightarrow> nat \<Rightarrow> nat \<Rightarrow> nat \<Rightarrow> 'c"
  fft_adjust_sqrt2 :: "'c \<Rightarrow> nat \<Rightarrow> nat \<Rightarrow> nat \<Rightarrow> 'c \<times> 'c"

section \<open>The twiddled butterfly (abs.c, lines 80-110)\<close>

text \<open>
  \<^verbatim>\<open>fft_butterfly_twiddle(u, v, s, t, limbs, b1, b2)\<close>: the arguments \<open>s\<close>, \<open>t\<close> are
  the contents of the input buffers, the result is the pair of contents written to
  the output buffers \<open>u\<close> and \<open>v\<close>. The flag set by \<open>b1\<close> is the one the source calls
  \<^verbatim>\<open>negate2\<close>, and it is the one applied to \<open>u\<close>.
\<close>

definition fft_butterfly_twiddle ::
  "'c arith \<Rightarrow> 'c \<Rightarrow> 'c \<Rightarrow> nat \<Rightarrow> nat \<Rightarrow> nat \<Rightarrow> 'c \<times> 'c" where
  "fft_butterfly_twiddle A s t limbs b1 b2 =
    (let nw = limbs * FLINT_BITS A;
         negate2 = (b1 \<ge> nw);
         b1 = (if b1 \<ge> nw then b1 - nw else b1);
         x = b1 div FLINT_BITS A;
         b1 = b1 mod FLINT_BITS A;
         negate1 = (b2 \<ge> nw);
         b2 = (if b2 \<ge> nw then b2 - nw else b2);
         y = b2 div FLINT_BITS A;
         b2 = b2 mod FLINT_BITS A;
         (u, v) = butterfly_lshB A s t limbs x y;
         u = mpn_mul_2expmod_2expp1 A u limbs b1;
         u = (if negate2 then mpn_neg_n A u (limbs + 1) else u);
         v = mpn_mul_2expmod_2expp1 A v limbs b2;
         v = (if negate1 then mpn_neg_n A v (limbs + 1) else v)
     in (u, v))"

section \<open>The twiddled radix-2 transform (abs.c, lines 120-150)\<close>

text \<open>
  A butterfly writes its two results to the buffers \<^verbatim>\<open>*t1\<close> and \<^verbatim>\<open>*t2\<close>; the two
  \<^verbatim>\<open>SWAP_PTRS\<close> that follow hand these buffers to the slots \<open>a\<close> and \<open>b\<close>.
\<close>

definition write_t1_t2 :: "'c \<times> 'c \<Rightarrow> 'c state \<Rightarrow> 'c state" where
  "write_t1_t2 uv s = s\<lparr>buf := (buf s)(t1 s := fst uv, t2 s := snd uv)\<rparr>"

definition place :: "nat \<Rightarrow> nat \<Rightarrow> 'c \<times> 'c \<Rightarrow> 'c state \<Rightarrow> 'c state" where
  "place a b uv s = SWAP_PTRS_t2 b (SWAP_PTRS_t1 a (write_t1_t2 uv s))"

text \<open>The body of the loop of lines 140-145 (and 174-180): pair \<open>i\<close> with \<open>n + i\<close>.\<close>

definition butterfly_step ::
  "'c bfly \<Rightarrow> nat \<Rightarrow> nat \<Rightarrow> nat \<Rightarrow> nat \<Rightarrow> nat \<Rightarrow> nat \<Rightarrow> 'c state \<Rightarrow> 'c state" where
  "butterfly_step B ii istride n limbs w i s =
    place (ii + i * istride) (ii + (n + i) * istride)
      (fft_butterfly B (val s (ii + i * istride)) (val s (ii + (n + i) * istride)) i limbs w) s"

definition butterfly_layer ::
  "'c bfly \<Rightarrow> nat \<Rightarrow> nat \<Rightarrow> nat \<Rightarrow> nat \<Rightarrow> nat \<Rightarrow> 'c state \<Rightarrow> 'c state" where
  "butterfly_layer B ii istride n limbs w s =
    fold (butterfly_step B ii istride n limbs w) [0..<n] s"

text \<open>The base case \<^verbatim>\<open>n == 1\<close> of lines 128-138.\<close>

definition twiddle_base ::
  "'c arith \<Rightarrow> nat \<Rightarrow> nat \<Rightarrow> nat \<Rightarrow> nat \<Rightarrow> nat \<Rightarrow> nat \<Rightarrow> nat \<Rightarrow> 'c state \<Rightarrow> 'c state" where
  "twiddle_base A ii istride limbs ws r c rs s =
    (let tw1 = r * c;
         tw2 = tw1 + rs * c
     in place ii (ii + istride)
          (fft_butterfly_twiddle A (val s ii) (val s (ii + istride)) limbs (tw1 * ws) (tw2 * ws)) s)"

text \<open>
  The recursion halves \<open>n\<close> and stops only at \<open>n = 1\<close>: at \<open>n = 0\<close> the source recurses
  for ever, and the model returns \<open>None\<close>.
\<close>

partial_function (option) fft_radix2_twiddle ::
  "'c arith \<Rightarrow> 'c bfly \<Rightarrow> nat \<Rightarrow> nat \<Rightarrow> nat \<Rightarrow> nat \<Rightarrow> nat \<Rightarrow> nat \<Rightarrow> nat \<Rightarrow> nat
     \<Rightarrow> 'c state \<Rightarrow> 'c state option" where
  "fft_radix2_twiddle A B ii istride n w ws r c rs s =
    (if n = 1 then Some (twiddle_base A ii istride ((w * n) div FLINT_BITS A) ws r c rs s)
     else do {
       s1 \<leftarrow> fft_radix2_twiddle A B ii istride (n div 2) (2 * w) ws r c (2 * rs)
               (butterfly_layer B ii istride n ((w * n) div FLINT_BITS A) w s);
       fft_radix2_twiddle A B (ii + n * istride) istride (n div 2) (2 * w) ws (r + rs) c (2 * rs) s1
     })"

declare fft_radix2_twiddle.simps [code]

section \<open>The truncated twiddled transform (abs.c, lines 157-186)\<close>

text \<open>
  The body of the loop of lines 168-169: an in-place \<^verbatim>\<open>mpn_add_n\<close> on slot \<open>i\<close>.
  \<open>write_slot b x\<close> overwrites the buffer that slot \<open>b\<close> owns.
\<close>

definition write_slot :: "nat \<Rightarrow> 'c \<Rightarrow> 'c state \<Rightarrow> 'c state" where
  "write_slot b x s = s\<lparr>buf := (buf s)(slot s b := x)\<rparr>"

definition add_step ::
  "'c arith \<Rightarrow> nat \<Rightarrow> nat \<Rightarrow> nat \<Rightarrow> nat \<Rightarrow> nat \<Rightarrow> 'c state \<Rightarrow> 'c state" where
  "add_step A ii istride n limbs i s =
    write_slot (ii + i * istride)
      (mpn_add_n A (val s (ii + i * istride)) (val s (ii + (i + n) * istride)) (limbs + 1)) s"

definition add_layer ::
  "'c arith \<Rightarrow> nat \<Rightarrow> nat \<Rightarrow> nat \<Rightarrow> nat \<Rightarrow> 'c state \<Rightarrow> 'c state" where
  "add_layer A ii istride n limbs s = fold (add_step A ii istride n limbs) [0..<n] s"

partial_function (option) fft_truncate1_twiddle ::
  "'c arith \<Rightarrow> 'c bfly \<Rightarrow> nat \<Rightarrow> nat \<Rightarrow> nat \<Rightarrow> nat \<Rightarrow> nat \<Rightarrow> nat \<Rightarrow> nat \<Rightarrow> nat \<Rightarrow> nat
     \<Rightarrow> 'c state \<Rightarrow> 'c state option" where
  "fft_truncate1_twiddle A B ii istride n w ws r c rs trunc s =
    (if trunc = 2 * n then fft_radix2_twiddle A B ii istride n w ws r c rs s
     else if trunc \<le> n then
       fft_truncate1_twiddle A B ii istride (n div 2) (2 * w) ws r c (2 * rs) trunc
         (add_layer A ii istride n ((w * n) div FLINT_BITS A) s)
     else do {
       s1 \<leftarrow> fft_radix2_twiddle A B ii istride (n div 2) (2 * w) ws r c (2 * rs)
               (butterfly_layer B ii istride n ((w * n) div FLINT_BITS A) w s);
       fft_truncate1_twiddle A B (ii + n * istride) istride (n div 2) (2 * w) ws (r + rs) c
         (2 * rs) (trunc - n) s1
     })"

declare fft_truncate1_twiddle.simps [code]

section \<open>The matrix Fourier transform (abs.c, lines 230-425)\<close>

text \<open>
  Modelled from the spec: \<^verbatim>\<open>n_revbin\<close> is not in \<^verbatim>\<open>src/\<close>; the spec (section 6)
  describes it as a bit-index reversal over a given number of low bits.
\<close>

fun n_revbin :: "nat \<Rightarrow> nat \<Rightarrow> nat" where
  "n_revbin j 0 = 0"
| "n_revbin j (Suc d) = (j mod 2) * 2 ^ d + n_revbin (j div 2) d"

text \<open>
  Modelled from the spec: \<^verbatim>\<open>fft_radix2\<close> is not in \<^verbatim>\<open>src/\<close>; the spec (sections 2
  and 6) describes it as the plain, untwiddled recursive radix-2 transform of a
  power-of-two length, and the comment of lines 112-118 describes
  \<^verbatim>\<open>fft_radix2_twiddle\<close> as \<^verbatim>\<open>fft_radix2\<close> with a stride and a twist added. So:
  the same recursion at stride 1, with a plain butterfly of index 0 at \<open>n = 1\<close>.
\<close>

partial_function (option) fft_radix2 ::
  "'c arith \<Rightarrow> 'c bfly \<Rightarrow> nat \<Rightarrow> nat \<Rightarrow> nat \<Rightarrow> 'c state \<Rightarrow> 'c state option" where
  "fft_radix2 A B ii n w s =
    (if n = 1 then
       Some (place ii (ii + 1)
         (fft_butterfly B (val s ii) (val s (ii + 1)) 0 ((w * n) div FLINT_BITS A) w) s)
     else do {
       s1 \<leftarrow> fft_radix2 A B ii (n div 2) (2 * w)
               (butterfly_layer B ii 1 n ((w * n) div FLINT_BITS A) w s);
       fft_radix2 A B (ii + n) (n div 2) (2 * w) s1
     })"

declare fft_radix2.simps [code]

text \<open>
  The loops \<^verbatim>\<open>while ((UWORD(1) << depth) < n2) depth++\<close> of lines 241-244, started
  at \<open>d = 0\<close>.
\<close>

function depth_loop :: "nat \<Rightarrow> nat \<Rightarrow> nat" where
  "depth_loop m d = (if 2 ^ d < m then depth_loop m (Suc d) else d)"
  by pat_completeness auto
termination
proof (relation "measure (\<lambda>(m, d). m - 2 ^ d)")
  show "wf (measure (\<lambda>(m, d). m - 2 ^ d))"
    by simp
next
  fix m d :: nat
  assume less: "2 ^ d < m"
  have "(0::nat) < 2 ^ d"
    by simp
  with less have "m - 2 * 2 ^ d < m - 2 ^ d"
    by linarith
  then show "((m, Suc d), (m, d)) \<in> measure (\<lambda>(m, d). m - 2 ^ d)"
    by simp
qed

text \<open>
  A loop \<^verbatim>\<open>for (; j < bound; j += step) body\<close>; it returns the final \<open>j\<close> too, which
  the second loop of a column continues from. A step of 0 never reaches these loops:
  \<^verbatim>\<open>(2 * n) / n1\<close> has trapped before.
\<close>

function for_step ::
  "(nat \<Rightarrow> 's \<Rightarrow> 's) \<Rightarrow> nat \<Rightarrow> nat \<Rightarrow> nat \<Rightarrow> 's \<Rightarrow> nat \<times> 's" where
  "for_step body j bound step s =
    (if j < bound \<and> 0 < step then for_step body (j + step) bound step (body j s) else (j, s))"
  by pat_completeness auto
termination
  by (relation "measure (\<lambda>(body, j, bound, step, s). bound - j)") auto

declare depth_loop.simps [simp del] for_step.simps [simp del]

text \<open>A counted loop whose body may fail to return: it stops at the first \<open>None\<close>.\<close>

primrec for_each :: "(nat \<Rightarrow> 's \<Rightarrow> 's option) \<Rightarrow> nat list \<Rightarrow> 's \<Rightarrow> 's option" where
  "for_each f [] s = Some s"
| "for_each f (i # js) s = Option.bind (f i s) (for_each f js)"

text \<open>
  \<^verbatim>\<open>fft_butterfly_sqrt2\<close> writes \<^verbatim>\<open>*t1\<close>, \<^verbatim>\<open>*t2\<close> and uses \<^verbatim>\<open>*temp\<close>;
  \<^verbatim>\<open>fft_adjust\<close> writes the buffer of slot \<open>b\<close> from the contents of slot \<open>a\<close>;
  \<^verbatim>\<open>fft_adjust_sqrt2\<close> uses \<^verbatim>\<open>*temp\<close> as well.
\<close>

definition place_sqrt2 :: "nat \<Rightarrow> nat \<Rightarrow> 'c \<times> 'c \<times> 'c \<Rightarrow> 'c state \<Rightarrow> 'c state" where
  "place_sqrt2 a b uvt s =
    place a b (fst uvt, fst (snd uvt)) (s\<lparr>buf := (buf s)(temp s := snd (snd uvt))\<rparr>)"

definition write_slot_temp :: "nat \<Rightarrow> 'c \<times> 'c \<Rightarrow> 'c state \<Rightarrow> 'c state" where
  "write_slot_temp b xt s = s\<lparr>buf := (buf s)(temp s := snd xt, slot s b := fst xt)\<rparr>"

text \<open>The bodies of the four loops of lines 251-282, for column \<open>i\<close> and slot \<open>j\<close>.\<close>

definition odd_butterfly_step :: "'c bfly \<Rightarrow> nat \<Rightarrow> nat \<Rightarrow> nat \<Rightarrow> nat \<Rightarrow> 'c state \<Rightarrow> 'c state" where
  "odd_butterfly_step B n w limbs j s =
    (if odd j then
       place_sqrt2 j (2 * n + j) (fft_butterfly_sqrt2 B (val s j) (val s (2 * n + j)) j limbs w) s
     else
       place j (2 * n + j) (fft_butterfly B (val s j) (val s (2 * n + j)) (j div 2) limbs w) s)"

definition odd_adjust_step ::
  "'c bfly \<Rightarrow> nat \<Rightarrow> nat \<Rightarrow> nat \<Rightarrow> nat \<Rightarrow> nat \<Rightarrow> 'c state \<Rightarrow> 'c state" where
  "odd_adjust_step B n w limbs i j s =
    (if odd i then write_slot_temp (j + 2 * n) (fft_adjust_sqrt2 B (val s j) j limbs w) s
     else write_slot (j + 2 * n) (fft_adjust B (val s j) (j div 2) limbs w) s)"

definition even_butterfly_step :: "'c bfly \<Rightarrow> nat \<Rightarrow> nat \<Rightarrow> nat \<Rightarrow> nat \<Rightarrow> 'c state \<Rightarrow> 'c state" where
  "even_butterfly_step B n w limbs j s =
    place j (2 * n + j) (fft_butterfly B (val s j) (val s (2 * n + j)) j limbs (w div 2)) s"

definition even_adjust_step :: "'c bfly \<Rightarrow> nat \<Rightarrow> nat \<Rightarrow> nat \<Rightarrow> nat \<Rightarrow> 'c state \<Rightarrow> 'c state" where
  "even_adjust_step B n w limbs j s =
    write_slot (j + 2 * n) (fft_adjust B (val s j) j limbs (w div 2)) s"

text \<open>The sqrt2 layer of column \<open>i\<close> (lines 251-282): \<^verbatim>\<open>w & 1\<close> chooses the pair of loops.\<close>

definition sqrt2_layer ::
  "'c bfly \<Rightarrow> nat \<Rightarrow> nat \<Rightarrow> nat \<Rightarrow> nat \<Rightarrow> nat \<Rightarrow> nat \<Rightarrow> 'c state \<Rightarrow> 'c state" where
  "sqrt2_layer B n w n1 trunc limbs i s =
    (if odd w then
       (let (j, s) = for_step (odd_butterfly_step B n w limbs) i (trunc - 2 * n) n1 s;
            (j, s) = for_step (odd_adjust_step B n w limbs i) j (2 * n) n1 s
        in s)
     else
       (let (j, s) = for_step (even_butterfly_step B n w limbs) i (trunc - 2 * n) n1 s;
            (j, s) = for_step (even_adjust_step B n w limbs) j (2 * n) n1 s
        in s))"

text \<open>
  The reorder loops (lines 289-293, 299-303): slot \<open>j\<close> of the column or row goes to
  position \<open>n_revbin j depth\<close>.
\<close>

definition revbin_step :: "nat \<Rightarrow> nat \<Rightarrow> nat \<Rightarrow> nat \<Rightarrow> 'c state \<Rightarrow> 'c state" where
  "revbin_step ii istride depth j s =
    (let r = n_revbin j depth
     in if j < r then SWAP_PTRS_ii (ii + j * istride) (ii + r * istride) s else s)"

definition revbin_reorder :: "nat \<Rightarrow> nat \<Rightarrow> nat \<Rightarrow> nat \<Rightarrow> 'c state \<Rightarrow> 'c state" where
  "revbin_reorder ii istride m depth s = fold (revbin_step ii istride depth) [0..<m] s"

text \<open>Lines 249-294: the body of the loop over the columns of the left half.\<close>

definition column_left ::
  "'c arith \<Rightarrow> 'c bfly \<Rightarrow> nat \<Rightarrow> nat \<Rightarrow> nat \<Rightarrow> nat \<Rightarrow> nat \<Rightarrow> nat \<Rightarrow> nat \<Rightarrow> nat
     \<Rightarrow> 'c state \<Rightarrow> 'c state option" where
  "column_left A B n w n1 n2 trunc limbs depth i s =
    do {
      s1 \<leftarrow> fft_radix2_twiddle A B i n1 (n2 div 2) (w * n1) w 0 i 1
              (sqrt2_layer B n w n1 trunc limbs i s);
      Some (revbin_reorder i n1 n2 depth s1)
    }"

text \<open>Lines 297-304 and 326-333: one row at slot offset \<open>base + i * n1\<close>.\<close>

definition row_transform ::
  "'c arith \<Rightarrow> 'c bfly \<Rightarrow> nat \<Rightarrow> nat \<Rightarrow> nat \<Rightarrow> nat \<Rightarrow> nat \<Rightarrow> nat
     \<Rightarrow> 'c state \<Rightarrow> 'c state option" where
  "row_transform A B base w n1 n2 depth2 i s =
    do {
      s1 \<leftarrow> fft_radix2 A B (base + i * n1) (n1 div 2) (w * n2) s;
      Some (revbin_reorder (base + i * n1) 1 n1 depth2 s1)
    }"

text \<open>Lines 310-322: the body of the loop over the columns of the right half.\<close>

definition column_right ::
  "'c arith \<Rightarrow> 'c bfly \<Rightarrow> nat \<Rightarrow> nat \<Rightarrow> nat \<Rightarrow> nat \<Rightarrow> nat \<Rightarrow> nat \<Rightarrow> nat
     \<Rightarrow> 'c state \<Rightarrow> 'c state option" where
  "column_right A B n w n1 n2 trunc2 depth i s =
    do {
      s1 \<leftarrow> fft_truncate1_twiddle A B (2 * n + i) n1 (n2 div 2) (w * n1) w 0 i 1 trunc2 s;
      Some (revbin_reorder (2 * n + i) n1 n2 depth s1)
    }"

definition columns_left ::
  "'c arith \<Rightarrow> 'c bfly \<Rightarrow> nat \<Rightarrow> nat \<Rightarrow> nat \<Rightarrow> nat \<Rightarrow> nat \<Rightarrow> nat \<Rightarrow> nat
     \<Rightarrow> 'c state \<Rightarrow> 'c state option" where
  "columns_left A B n w n1 n2 trunc limbs depth s =
    for_each (column_left A B n w n1 n2 trunc limbs depth) [0..<n1] s"

definition rows_left ::
  "'c arith \<Rightarrow> 'c bfly \<Rightarrow> nat \<Rightarrow> nat \<Rightarrow> nat \<Rightarrow> nat \<Rightarrow> 'c state \<Rightarrow> 'c state option" where
  "rows_left A B w n1 n2 depth2 s = for_each (row_transform A B 0 w n1 n2 depth2) [0..<n2] s"

definition columns_right ::
  "'c arith \<Rightarrow> 'c bfly \<Rightarrow> nat \<Rightarrow> nat \<Rightarrow> nat \<Rightarrow> nat \<Rightarrow> nat \<Rightarrow> nat
     \<Rightarrow> 'c state \<Rightarrow> 'c state option" where
  "columns_right A B n w n1 n2 trunc2 depth s =
    for_each (column_right A B n w n1 n2 trunc2 depth) [0..<n1] s"

definition rows_right ::
  "'c arith \<Rightarrow> 'c bfly \<Rightarrow> nat \<Rightarrow> nat \<Rightarrow> nat \<Rightarrow> nat \<Rightarrow> nat \<Rightarrow> nat \<Rightarrow> nat
     \<Rightarrow> 'c state \<Rightarrow> 'c state option" where
  "rows_right A B n w n1 n2 trunc2 depth depth2 s =
    for_each (\<lambda>k. row_transform A B (2 * n) w n1 n2 depth2 (n_revbin k depth)) [0..<trunc2] s"

text \<open>
  \<^verbatim>\<open>fft_mfa_truncate_sqrt2\<close> (lines 230-335). The division by \<open>n1\<close> of line 235 traps
  at \<open>n1 = 0\<close>: no state is returned.
\<close>

definition fft_mfa_truncate_sqrt2 ::
  "'c arith \<Rightarrow> 'c bfly \<Rightarrow> nat \<Rightarrow> nat \<Rightarrow> nat \<Rightarrow> nat \<Rightarrow> 'c state \<Rightarrow> 'c state option" where
  "fft_mfa_truncate_sqrt2 A B n w n1 trunc s =
    (if n1 = 0 then None
     else
       (let n2 = (2 * n) div n1;
            trunc2 = (trunc - 2 * n) div n1;
            limbs = (n * w) div FLINT_BITS A;
            depth = depth_loop n2 0;
            depth2 = depth_loop n1 0
        in do {
          s1 \<leftarrow> columns_left A B n w n1 n2 trunc limbs depth s;
          s2 \<leftarrow> rows_left A B w n1 n2 depth2 s1;
          s3 \<leftarrow> columns_right A B n w n1 n2 trunc2 depth s2;
          rows_right A B n w n1 n2 trunc2 depth depth2 s3
        }))"

text \<open>\<^verbatim>\<open>fft_mfa_truncate_sqrt2_outer\<close> (lines 341-425): no loop over rows at all.\<close>

definition fft_mfa_truncate_sqrt2_outer ::
  "'c arith \<Rightarrow> 'c bfly \<Rightarrow> nat \<Rightarrow> nat \<Rightarrow> nat \<Rightarrow> nat \<Rightarrow> 'c state \<Rightarrow> 'c state option" where
  "fft_mfa_truncate_sqrt2_outer A B n w n1 trunc s =
    (if n1 = 0 then None
     else
       (let n2 = (2 * n) div n1;
            trunc2 = (trunc - 2 * n) div n1;
            limbs = (n * w) div FLINT_BITS A;
            depth = depth_loop n2 0
        in do {
          s1 \<leftarrow> columns_left A B n w n1 n2 trunc limbs depth s;
          columns_right A B n w n1 n2 trunc2 depth s1
        }))"

section \<open>Ownership\<close>

definition own :: "nat \<Rightarrow> 'c state \<Rightarrow> bool" where
  "own N s = distinct (map (slot s) [0..<N] @ [t1 s, t2 s, temp s])"

definition owners :: "nat \<Rightarrow> 'c state \<Rightarrow> nat set" where
  "owners N s = set (map (slot s) [0..<N] @ [t1 s, t2 s, temp s])"

text \<open>
  \<open>own N s\<close>: among the first \<open>N\<close> slots and the three scratch pointers no buffer
  has two owners. \<open>owners N s\<close> is the set of the buffers they own.

  \<open>frame N F s s'\<close>: from \<open>s\<close> to \<open>s'\<close> ownership is kept, the owned buffers are
  the same set, \<^verbatim>\<open>*temp\<close> is the same pointer, and outside the slot indices \<open>F\<close>
  every slot owns the buffer it owned, with the contents it had.
\<close>

definition frame :: "nat \<Rightarrow> nat set \<Rightarrow> 'c state \<Rightarrow> 'c state \<Rightarrow> bool" where
  "frame N F s s' \<longleftrightarrow>
     own N s' \<and> owners N s' = owners N s \<and> temp s' = temp s \<and>
     (\<forall>j. j \<notin> F \<longrightarrow> slot s' j = slot s j) \<and>
     (\<forall>j<N. j \<notin> F \<longrightarrow> val s' j = val s j)"

text \<open>
  \<open>sim N R s s2\<close>: two states, each without aliasing, whose slots in \<open>R\<close> hold the
  same contents; which buffers hold them, and what the scratch buffers hold, is free.
\<close>

definition sim :: "nat \<Rightarrow> nat set \<Rightarrow> 'c state \<Rightarrow> 'c state \<Rightarrow> bool" where
  "sim N R s s2 \<longleftrightarrow> own N s \<and> own N s2 \<and> (\<forall>j<N. j \<in> R \<longrightarrow> val s j = val s2 j)"

text \<open>\<open>inside N F ii istride m\<close>: the \<open>m\<close> slots \<open>ii + k * istride\<close> are below \<open>N\<close> and in \<open>F\<close>.\<close>

definition inside :: "nat \<Rightarrow> nat set \<Rightarrow> nat \<Rightarrow> nat \<Rightarrow> nat \<Rightarrow> bool" where
  "inside N F ii istride m \<longleftrightarrow> (\<forall>k<m. ii + k * istride < N \<and> ii + k * istride \<in> F)"

text \<open>A call returns a state that satisfies \<open>P\<close>; two calls both return, related by \<open>P\<close>.\<close>

definition returns :: "'a option \<Rightarrow> ('a \<Rightarrow> bool) \<Rightarrow> bool" where
  "returns r P \<longleftrightarrow> (case r of None \<Rightarrow> False | Some x \<Rightarrow> P x)"

definition returns2 :: "'a option \<Rightarrow> 'a option \<Rightarrow> ('a \<Rightarrow> 'a \<Rightarrow> bool) \<Rightarrow> bool" where
  "returns2 r r2 P \<longleftrightarrow>
     (case r of None \<Rightarrow> False | Some x \<Rightarrow> (case r2 of None \<Rightarrow> False | Some y \<Rightarrow> P x y))"

text \<open>
  \<open>pair_effect N a b h s s'\<close>: the step from \<open>s\<close> to \<open>s'\<close> replaces the contents of
  the slots \<open>a\<close> and \<open>b\<close> by the two components of \<open>h\<close> applied to their old contents,
  leaves the contents of every other slot below \<open>N\<close> alone, and changes the buffer of
  no other slot.
\<close>

definition pair_effect ::
  "nat \<Rightarrow> nat \<Rightarrow> nat \<Rightarrow> ('c \<Rightarrow> 'c \<Rightarrow> 'c \<times> 'c) \<Rightarrow> 'c state \<Rightarrow> 'c state \<Rightarrow> bool" where
  "pair_effect N a b h s s' \<longleftrightarrow>
     own N s' \<and>
     (\<forall>j<N. val s' j =
        (if j = a then fst (h (val s a) (val s b))
         else if j = b then snd (h (val s a) (val s b)) else val s j)) \<and>
     (\<forall>j. j \<noteq> a \<and> j \<noteq> b \<longrightarrow> slot s' j = slot s j)"

section \<open>A free interpretation of the collaborators\<close>

text \<open>
  For concrete runs the primitives are interpreted freely: a coefficient is a term that
  records which primitive produced it, from which coefficients and with which size
  arguments. \<open>signal0\<close> is a signal whose slot \<open>i\<close> owns buffer \<open>i\<close> with contents
  \<open>Init i\<close>; its scratch buffers are 1000, 1001 and 1002.
\<close>

datatype opname = LshB_u | LshB_v | Mul_2exp | Neg | Add | Bfly_u | Bfly_v
  | Sqrt2_u | Sqrt2_v | Sqrt2_t | Adjust | Adjust_sqrt2 | Adjust_sqrt2_t

datatype expr = Init nat | Op opname "expr list" "nat list"

definition sym_arith :: "expr arith" where
  "sym_arith = \<lparr>FLINT_BITS = 64,
     butterfly_lshB = (\<lambda>s t limbs x y. (Op LshB_u [s, t] [limbs, x, y], Op LshB_v [s, t] [limbs, x, y])),
     mpn_mul_2expmod_2expp1 = (\<lambda>a limbs d. Op Mul_2exp [a] [limbs, d]),
     mpn_neg_n = (\<lambda>a m. Op Neg [a] [m]),
     mpn_add_n = (\<lambda>a b m. Op Add [a, b] [m])\<rparr>"

definition sym_bfly :: "expr bfly" where
  "sym_bfly = \<lparr>
     fft_butterfly = (\<lambda>a b i limbs w. (Op Bfly_u [a, b] [i, limbs, w], Op Bfly_v [a, b] [i, limbs, w])),
     fft_butterfly_sqrt2 = (\<lambda>a b i limbs w.
        (Op Sqrt2_u [a, b] [i, limbs, w], Op Sqrt2_v [a, b] [i, limbs, w], Op Sqrt2_t [a, b] [i, limbs, w])),
     fft_adjust = (\<lambda>a i limbs w. Op Adjust [a] [i, limbs, w]),
     fft_adjust_sqrt2 = (\<lambda>a i limbs w. (Op Adjust_sqrt2 [a] [i, limbs, w], Op Adjust_sqrt2_t [a] [i, limbs, w]))\<rparr>"

definition signal0 :: "expr state" where
  "signal0 = \<lparr>slot = (\<lambda>i. i), buf = Init, t1 = 1000, t2 = 1001, temp = 1002\<rparr>"

text \<open>\<open>strided ii istride m\<close>: the \<open>m\<close> slot indices \<open>ii + k * istride\<close>, \<open>k < m\<close>.\<close>

definition strided :: "nat \<Rightarrow> nat \<Rightarrow> nat \<Rightarrow> nat set" where
  "strided ii istride m = (\<lambda>k. ii + k * istride) ` {..<m}"

text \<open>The ring modulus \<open>2 ^ nw + 1\<close> of coefficients of \<open>limbs\<close> words, \<open>nw = limbs * W\<close>.\<close>

definition modulus :: "'c arith \<Rightarrow> nat \<Rightarrow> int" where
  "modulus A limbs = 2 ^ (limbs * FLINT_BITS A) + 1"

text \<open>
  Modelled from the spec: the contracts of the word-level primitives, which are not in
  \<^verbatim>\<open>src/\<close> (spec, sections 2 and 6: modular negate, and multiplication by a power of two
  modulo \<open>2 ^ nw + 1\<close>). \<open>V\<close> reads a coefficient as the integer it represents;
  \<^verbatim>\<open>butterfly_lshB\<close> shifts the sum and the difference by whole words (\<open>x, y < limbs\<close>),
  \<^verbatim>\<open>mpn_mul_2expmod_2expp1\<close> by fewer than \<open>W\<close> bits, \<^verbatim>\<open>mpn_neg_n\<close> negates.
\<close>

definition arith_contract :: "'c arith \<Rightarrow> ('c \<Rightarrow> int) \<Rightarrow> bool" where
  "arith_contract A V \<longleftrightarrow>
     (\<forall>s t limbs x y. x < limbs \<and> y < limbs \<longrightarrow>
        V (fst (butterfly_lshB A s t limbs x y)) mod modulus A limbs =
          ((V s + V t) * 2 ^ (x * FLINT_BITS A)) mod modulus A limbs \<and>
        V (snd (butterfly_lshB A s t limbs x y)) mod modulus A limbs =
          ((V s - V t) * 2 ^ (y * FLINT_BITS A)) mod modulus A limbs) \<and>
     (\<forall>a limbs d. d < FLINT_BITS A \<longrightarrow>
        V (mpn_mul_2expmod_2expp1 A a limbs d) mod modulus A limbs =
          (V a * 2 ^ d) mod modulus A limbs) \<and>
     (\<forall>a limbs. V (mpn_neg_n A a (limbs + 1)) mod modulus A limbs = (- V a) mod modulus A limbs)"

text \<open>
  Modelled from the spec: one implementation of these primitives, on coefficients kept
  as integers reduced modulo \<open>2 ^ nw + 1\<close>, for concrete runs.
\<close>

definition int_arith :: "nat \<Rightarrow> int arith" where
  "int_arith W = \<lparr>FLINT_BITS = W,
     butterfly_lshB = (\<lambda>s t limbs x y.
        (((s + t) * 2 ^ (x * W)) mod (2 ^ (limbs * W) + 1),
         ((s - t) * 2 ^ (y * W)) mod (2 ^ (limbs * W) + 1))),
     mpn_mul_2expmod_2expp1 = (\<lambda>a limbs d. (a * 2 ^ d) mod (2 ^ (limbs * W) + 1)),
     mpn_neg_n = (\<lambda>a m. (- a) mod (2 ^ ((m - 1) * W) + 1)),
     mpn_add_n = (\<lambda>a b m. (a + b) mod (2 ^ ((m - 1) * W) + 1))\<rparr>"

text \<open>
  The parameters the source documents for the matrix Fourier transform (lines 188-228):
  \<open>n\<close> and \<open>n1\<close> powers of two, \<open>n1 * n2 = 2 * n\<close>, \<open>trunc > 2 * n\<close> divisible by
  \<open>2 * n1\<close>; here \<open>n1 = 2 ^ Suc b\<close> columns and \<open>n2 = 2 ^ Suc c\<close> rows, so that no
  transform of length 0 is asked for, and \<open>trunc\<close> is at most the \<open>4 * n\<close> slots of the
  signal.
\<close>

definition mfa_params :: "nat \<Rightarrow> nat \<Rightarrow> nat \<Rightarrow> nat \<Rightarrow> nat \<Rightarrow> bool" where
  "mfa_params b c n n1 trunc \<longleftrightarrow>
     n1 = 2 ^ Suc b \<and> n = 2 ^ (b + Suc c) \<and> 2 * n < trunc \<and> trunc \<le> 4 * n \<and> (2 * n1) dvd trunc"

text \<open>
  \<open>signal1\<close> holds the coefficients of \<open>signal0\<close> in other buffers: slot \<open>i\<close> owns
  buffer \<open>7 - i\<close>, and the scratch pointers differ.
\<close>

definition signal1 :: "expr state" where
  "signal1 = \<lparr>slot = (\<lambda>i. 7 - i), buf = (\<lambda>a. Init (7 - a)), t1 = 2000, t2 = 2001, temp = 2002\<rparr>"

text \<open>
  Two prefixes of \<^verbatim>\<open>fft_mfa_truncate_sqrt2\<close>: the state after its loop over the columns
  of the left half (line 294, before the rows of the left half), and the state
  immediately before its loop over the rows of the right half (line 324).
\<close>

definition mfa_after_left_columns ::
  "'c arith \<Rightarrow> 'c bfly \<Rightarrow> nat \<Rightarrow> nat \<Rightarrow> nat \<Rightarrow> nat \<Rightarrow> 'c state \<Rightarrow> 'c state option" where
  "mfa_after_left_columns A B n w n1 trunc s =
    (if n1 = 0 then None
     else
       (let n2 = (2 * n) div n1;
            limbs = (n * w) div FLINT_BITS A;
            depth = depth_loop n2 0
        in columns_left A B n w n1 n2 trunc limbs depth s))"

definition mfa_before_right_rows ::
  "'c arith \<Rightarrow> 'c bfly \<Rightarrow> nat \<Rightarrow> nat \<Rightarrow> nat \<Rightarrow> nat \<Rightarrow> 'c state \<Rightarrow> 'c state option" where
  "mfa_before_right_rows A B n w n1 trunc s =
    (if n1 = 0 then None
     else
       (let n2 = (2 * n) div n1;
            trunc2 = (trunc - 2 * n) div n1;
            limbs = (n * w) div FLINT_BITS A;
            depth = depth_loop n2 0;
            depth2 = depth_loop n1 0
        in do {
          s1 \<leftarrow> columns_left A B n w n1 n2 trunc limbs depth s;
          s2 \<leftarrow> rows_left A B w n1 n2 depth2 s1;
          columns_right A B n w n1 n2 trunc2 depth s2
        }))"





section \<open>Ownership, frames and simulation of the elementary steps\<close>

lemma own_iff:
  "own N s \<longleftrightarrow>
     (\<forall>i<N. \<forall>j<N. slot s i = slot s j \<longrightarrow> i = j) \<and>
     (\<forall>j<N. slot s j \<noteq> t1 s \<and> slot s j \<noteq> t2 s \<and> slot s j \<noteq> temp s) \<and>
     t1 s \<noteq> t2 s \<and> t1 s \<noteq> temp s \<and> t2 s \<noteq> temp s"
proof -
  have a: "own N s \<longleftrightarrow> inj_on (slot s) {..<N} \<and> slot s ` {..<N} \<inter> {t1 s, t2 s, temp s} = {} \<and>
     t1 s \<noteq> t2 s \<and> t1 s \<noteq> temp s \<and> t2 s \<noteq> temp s"
    by (auto simp: own_def distinct_map atLeast0LessThan)
  have b: "inj_on (slot s) {..<N} \<longleftrightarrow> (\<forall>i<N. \<forall>j<N. slot s i = slot s j \<longrightarrow> i = j)"
    by (auto simp: inj_on_def)
  have c: "slot s ` {..<N} \<inter> {t1 s, t2 s, temp s} = {} \<longleftrightarrow>
     (\<forall>j<N. slot s j \<noteq> t1 s \<and> slot s j \<noteq> t2 s \<and> slot s j \<noteq> temp s)"
    by blast
  show ?thesis
    unfolding a b c ..
qed

lemma owners_eq: "owners N s = slot s ` {..<N} \<union> {t1 s, t2 s, temp s}"
  by (auto simp: owners_def atLeast0LessThan)

lemma frame_refl: "own N s \<Longrightarrow> frame N F s s"
  by (simp add: frame_def)

lemma frame_trans: "frame N F s s1 \<Longrightarrow> frame N F s1 s2 \<Longrightarrow> frame N F s s2"
  by (simp add: frame_def)

lemma frame_mono: "frame N F s s' \<Longrightarrow> F \<subseteq> G \<Longrightarrow> frame N G s s'"
  by (auto simp: frame_def)

lemma place_own:
  assumes "own N s" "a < N" "b < N" "a \<noteq> b"
  shows "own N (place a b uv s)"
  using assms
  by (auto simp: own_iff place_def SWAP_PTRS_t1_def SWAP_PTRS_t2_def write_t1_t2_def inj_on_def)

lemma place_owners:
  assumes "own N s" "a < N" "b < N" "a \<noteq> b"
  shows "owners N (place a b uv s) = owners N s"
  using assms
  by (auto simp: own_iff owners_eq place_def SWAP_PTRS_t1_def SWAP_PTRS_t2_def write_t1_t2_def inj_on_def)

lemma place_val:
  assumes "own N s" "a < N" "b < N" "a \<noteq> b" "j < N"
  shows "val (place a b uv s) j = (if j = a then fst uv else if j = b then snd uv else val s j)"
  using assms
  by (auto simp: own_iff val_def place_def SWAP_PTRS_t1_def SWAP_PTRS_t2_def write_t1_t2_def inj_on_def)

lemma place_slot: "j \<noteq> a \<Longrightarrow> j \<noteq> b \<Longrightarrow> slot (place a b uv s) j = slot s j"
  by (simp add: place_def SWAP_PTRS_t1_def SWAP_PTRS_t2_def write_t1_t2_def)

lemma place_temp: "temp (place a b uv s) = temp s"
  by (simp add: place_def SWAP_PTRS_t1_def SWAP_PTRS_t2_def write_t1_t2_def)

lemma place_frame:
  assumes "own N s" "a < N" "b < N" "a \<noteq> b" "a \<in> F" "b \<in> F"
  shows "frame N F s (place a b uv s)"
  using assms
  by (auto simp: frame_def place_own place_owners place_val[where N=N] place_temp intro: place_slot)

lemma place_sim:
  assumes "sim N R s s2" "a < N" "b < N" "a \<noteq> b"
  shows "sim N R (place a b uv s) (place a b uv s2)"
  using assms by (simp add: sim_def place_own place_val[where N=N])

lemma write_slot_own: "own N s \<Longrightarrow> own N (write_slot b x s)"
  by (simp add: own_def write_slot_def)

lemma write_slot_owners: "owners N (write_slot b x s) = owners N s"
  by (simp add: owners_def write_slot_def)

lemma write_slot_slot: "slot (write_slot b x s) = slot s"
  by (simp add: write_slot_def)

lemma write_slot_temp': "temp (write_slot b x s) = temp s"
  by (simp add: write_slot_def)

lemma write_slot_val:
  assumes "own N s" "b < N" "j < N"
  shows "val (write_slot b x s) j = (if j = b then x else val s j)"
  using assms by (auto simp: own_iff val_def write_slot_def)

lemma write_slot_frame:
  assumes "own N s" "b < N" "b \<in> F"
  shows "frame N F s (write_slot b x s)"
  using assms
  by (auto simp: frame_def write_slot_own write_slot_owners write_slot_val[where N=N] write_slot_slot write_slot_temp')

lemma write_slot_sim:
  assumes "sim N R s s2" "b < N"
  shows "sim N R (write_slot b x s) (write_slot b x s2)"
  using assms by (simp add: sim_def write_slot_own write_slot_val[where N=N])

lemma write_temp_own: "own N s \<Longrightarrow> own N (s\<lparr>buf := (buf s)(temp s := x)\<rparr>)"
  by (simp add: own_def)

lemma write_temp_val:
  assumes "own N s" "j < N"
  shows "val (s\<lparr>buf := (buf s)(temp s := x)\<rparr>) j = val s j"
  using assms by (auto simp: own_iff val_def)

lemma write_temp_frame: "own N s \<Longrightarrow> frame N F s (s\<lparr>buf := (buf s)(temp s := x)\<rparr>)"
  by (simp add: frame_def write_temp_own write_temp_val[where N=N]) (simp add: owners_def)

lemma write_temp_sim:
  "sim N R s s2 \<Longrightarrow> sim N R (s\<lparr>buf := (buf s)(temp s := x)\<rparr>) (s2\<lparr>buf := (buf s2)(temp s2 := y)\<rparr>)"
  by (simp add: sim_def write_temp_own write_temp_val[where N=N])

lemma place_sqrt2_frame:
  assumes "own N s" "a < N" "b < N" "a \<noteq> b" "a \<in> F" "b \<in> F"
  shows "frame N F s (place_sqrt2 a b uvt s)"
  unfolding place_sqrt2_def
  using assms by (blast intro: frame_trans write_temp_frame place_frame write_temp_own)

lemma place_sqrt2_val:
  assumes "own N s" "a < N" "b < N" "a \<noteq> b" "j < N"
  shows "val (place_sqrt2 a b uvt s) j =
    (if j = a then fst uvt else if j = b then fst (snd uvt) else val s j)"
  unfolding place_sqrt2_def
  using assms by (simp add: place_val[where N=N] write_temp_own write_temp_val[where N=N])

lemma place_sqrt2_sim:
  assumes "sim N R s s2" "a < N" "b < N" "a \<noteq> b"
  shows "sim N R (place_sqrt2 a b (u, v, x) s) (place_sqrt2 a b (u, v, y) s2)"
  unfolding place_sqrt2_def
  using assms by (simp add: place_sim write_temp_sim)

lemma write_slot_temp_eq:
  "write_slot_temp b xt s = write_slot b (fst xt) (s\<lparr>buf := (buf s)(temp s := snd xt)\<rparr>)"
  by (simp add: write_slot_temp_def write_slot_def)

lemma write_slot_temp_frame:
  assumes "own N s" "b < N" "b \<in> F"
  shows "frame N F s (write_slot_temp b xt s)"
  unfolding write_slot_temp_eq
  using assms by (blast intro: frame_trans write_temp_frame write_slot_frame write_temp_own)

lemma write_slot_temp_val:
  assumes "own N s" "b < N" "j < N"
  shows "val (write_slot_temp b xt s) j = (if j = b then fst xt else val s j)"
  unfolding write_slot_temp_eq
  using assms by (simp add: write_slot_val[where N=N] write_temp_own write_temp_val[where N=N])

lemma write_slot_temp_sim:
  assumes "sim N R s s2" "b < N"
  shows "sim N R (write_slot_temp b (x, y) s) (write_slot_temp b (x, z) s2)"
  unfolding write_slot_temp_eq
  using assms by (simp add: write_slot_sim write_temp_sim)

lemma swap_ii_own:
  assumes "own N s" "a < N" "b < N"
  shows "own N (SWAP_PTRS_ii a b s)"
  using assms by (auto simp: own_iff SWAP_PTRS_ii_def)

lemma swap_ii_owners:
  assumes "a < N" "b < N"
  shows "owners N (SWAP_PTRS_ii a b s) = owners N s"
  using assms by (auto simp: owners_eq SWAP_PTRS_ii_def image_iff)

lemma swap_ii_val:
  "val (SWAP_PTRS_ii a b s) j = (if j = b then val s a else if j = a then val s b else val s j)"
  by (simp add: val_def SWAP_PTRS_ii_def)

lemma swap_ii_frame:
  assumes "own N s" "a < N" "b < N" "a \<in> F" "b \<in> F"
  shows "frame N F s (SWAP_PTRS_ii a b s)"
  using assms
  by (auto simp: frame_def swap_ii_own swap_ii_owners swap_ii_val) (auto simp: SWAP_PTRS_ii_def)

lemma swap_ii_sim:
  assumes "sim N R s s2" "a < N" "b < N" "a \<in> R" "b \<in> R"
  shows "sim N R (SWAP_PTRS_ii a b s) (SWAP_PTRS_ii a b s2)"
  using assms by (simp add: sim_def swap_ii_own swap_ii_val)

lemma insideD: "inside N F ii istride m \<Longrightarrow> k < m \<Longrightarrow> ii + k * istride < N \<and> ii + k * istride \<in> F"
  by (simp add: inside_def)

lemma inside_lower: "inside N F ii istride m \<Longrightarrow> m' \<le> m \<Longrightarrow> inside N F ii istride m'"
  by (simp add: inside_def)

lemma inside_upper:
  "inside N F ii istride (n + m) \<Longrightarrow> inside N F (ii + n * istride) istride m"
  by (simp add: inside_def add.assoc flip: distrib_right)

lemma frame_own: "frame N F s s' \<Longrightarrow> own N s'"
  by (simp add: frame_def)

lemma fold_frame:
  assumes "\<And>i s. i \<in> set xs \<Longrightarrow> own N s \<Longrightarrow> frame N F s (f i s)" "own N s"
  shows "frame N F s (fold f xs s)"
  using assms
proof (induction xs arbitrary: s)
  case Nil
  then show ?case by (simp add: frame_refl)
next
  case (Cons x xs)
  have step: "frame N F s (f x s)"
    using Cons.prems by simp
  have "frame N F (f x s) (fold f xs (f x s))"
    using Cons.prems(1) frame_own[OF step] by (intro Cons.IH) simp_all
  with step show ?case
    by (simp add: frame_trans[where ?s1.0="f x s"])
qed

lemma fold_sim:
  assumes "\<And>i s s2. i \<in> set xs \<Longrightarrow> sim N R s s2 \<Longrightarrow> sim N R (f i s) (f i s2)" "sim N R s s2"
  shows "sim N R (fold f xs s) (fold f xs s2)"
  using assms by (induction xs arbitrary: s s2) simp_all

lemma sim_val: "sim N R s s2 \<Longrightarrow> j < N \<Longrightarrow> j \<in> R \<Longrightarrow> val s j = val s2 j"
  by (simp add: sim_def)

lemma butterfly_step_frame:
  assumes "own N s" "0 < istride" "i < n" "inside N F ii istride (2 * n)"
  shows "frame N F s (butterfly_step B ii istride n limbs w i s)"
  unfolding butterfly_step_def
  using assms insideD[OF assms(4), of i] insideD[OF assms(4), of "n + i"]
  by (intro place_frame) simp_all

lemma butterfly_step_sim:
  assumes "sim N R s s2" "0 < istride" "i < n" "inside N R ii istride (2 * n)"
  shows "sim N R (butterfly_step B ii istride n limbs w i s) (butterfly_step B ii istride n limbs w i s2)"
proof -
  have a: "ii + i * istride < N \<and> ii + i * istride \<in> R"
    using insideD[OF assms(4), of i] assms(3) by simp
  have b: "ii + (n + i) * istride < N \<and> ii + (n + i) * istride \<in> R"
    using insideD[OF assms(4), of "n + i"] assms(3) by simp
  have "val s (ii + i * istride) = val s2 (ii + i * istride)"
    "val s (ii + (n + i) * istride) = val s2 (ii + (n + i) * istride)"
    using assms(1) a b by (simp_all add: sim_val)
  then show ?thesis
    unfolding butterfly_step_def using assms a b by (simp add: place_sim)
qed

lemma butterfly_layer_frame:
  assumes "own N s" "0 < istride" "inside N F ii istride (2 * n)"
  shows "frame N F s (butterfly_layer B ii istride n limbs w s)"
  unfolding butterfly_layer_def
  using assms by (intro fold_frame) (simp_all add: butterfly_step_frame)

lemma butterfly_layer_sim:
  assumes "sim N R s s2" "0 < istride" "inside N R ii istride (2 * n)"
  shows "sim N R (butterfly_layer B ii istride n limbs w s) (butterfly_layer B ii istride n limbs w s2)"
  unfolding butterfly_layer_def
  using assms by (intro fold_sim) (simp_all add: butterfly_step_sim)

lemma twiddle_base_frame:
  assumes "own N s" "0 < istride" "inside N F ii istride 2"
  shows "frame N F s (twiddle_base A ii istride limbs ws r c rs s)"
  unfolding twiddle_base_def Let_def
  using assms insideD[OF assms(3), of 0] insideD[OF assms(3), of 1]
  by (intro place_frame) simp_all

lemma twiddle_base_sim:
  assumes "sim N R s s2" "0 < istride" "inside N R ii istride 2"
  shows "sim N R (twiddle_base A ii istride limbs ws r c rs s) (twiddle_base A ii istride limbs ws r c rs s2)"
proof -
  have a: "ii < N \<and> ii \<in> R" "ii + istride < N \<and> ii + istride \<in> R"
    using insideD[OF assms(3), of 0] insideD[OF assms(3), of 1] by simp_all
  then have "val s ii = val s2 ii" "val s (ii + istride) = val s2 (ii + istride)"
    using assms(1) by (simp_all add: sim_val)
  then show ?thesis
    unfolding twiddle_base_def Let_def using assms a by (simp add: place_sim)
qed

lemma returns_Some: "returns (Some x) P \<longleftrightarrow> P x"
  by (simp add: returns_def)

lemma returns_bind:
  assumes "returns r P" "\<And>x. P x \<Longrightarrow> returns (g x) Q"
  shows "returns (Option.bind r g) Q"
  using assms by (cases r) (simp_all add: returns_def)

lemma returns_mono: "returns r P \<Longrightarrow> (\<And>x. P x \<Longrightarrow> Q x) \<Longrightarrow> returns r Q"
  by (cases r) (simp_all add: returns_def)

lemma returnsE: "returns r P \<Longrightarrow> \<exists>x. r = Some x \<and> P x"
  by (cases r) (simp_all add: returns_def)

lemma radix2_twiddle_frame:
  assumes "own N s" "0 < istride" "inside N F ii istride (2 * 2 ^ k)"
  shows "returns (fft_radix2_twiddle A B ii istride (2 ^ k) w ws r c rs s) (frame N F s)"
  using assms
proof (induction k arbitrary: ii w r rs s)
  case 0
  then show ?case
    by (subst fft_radix2_twiddle.simps) (simp add: returns_Some twiddle_base_frame)
next
  case (Suc k)
  let ?n = "(2::nat) ^ Suc k"
  let ?s0 = "butterfly_layer B ii istride ?n ((w * ?n) div FLINT_BITS A) w s"
  have f0: "frame N F s ?s0"
    using Suc.prems by (intro butterfly_layer_frame) simp_all
  have in1: "inside N F ii istride (2 * 2 ^ k)"
    using Suc.prems(3) by (rule inside_lower) simp
  have in2: "inside N F (ii + ?n * istride) istride (2 * 2 ^ k)"
    using Suc.prems(3) by (intro inside_upper) (simp add: mult_2)
  have r1: "returns (fft_radix2_twiddle A B ii istride (2 ^ k) (2 * w) ws r c (2 * rs) ?s0) (frame N F s)"
    by (rule returns_mono[OF Suc.IH[OF frame_own[OF f0] Suc.prems(2) in1]])
      (rule frame_trans[OF f0])
  have "returns (Option.bind (fft_radix2_twiddle A B ii istride (2 ^ k) (2 * w) ws r c (2 * rs) ?s0)
      (fft_radix2_twiddle A B (ii + ?n * istride) istride (2 ^ k) (2 * w) ws (r + rs) c (2 * rs)))
      (frame N F s)"
    using r1
  proof (rule returns_bind)
    fix s1 assume f1: "frame N F s s1"
    show "returns (fft_radix2_twiddle A B (ii + ?n * istride) istride (2 ^ k) (2 * w) ws (r + rs) c (2 * rs) s1) (frame N F s)"
      by (rule returns_mono[OF Suc.IH[OF frame_own[OF f1] Suc.prems(2) in2]])
        (rule frame_trans[OF f1])
  qed
  then show ?case
    by (subst fft_radix2_twiddle.simps) simp
qed

lemma returns2_Some: "returns2 (Some x) (Some y) P \<longleftrightarrow> P x y"
  by (simp add: returns2_def)

lemma returns2_bind:
  assumes "returns2 r r2 P" "\<And>x y. P x y \<Longrightarrow> returns2 (g x) (g2 y) Q"
  shows "returns2 (Option.bind r g) (Option.bind r2 g2) Q"
  using assms by (cases r; cases r2) (simp_all add: returns2_def)

lemma returns2E: "returns2 r r2 P \<Longrightarrow> \<exists>x y. r = Some x \<and> r2 = Some y \<and> P x y"
  by (cases r; cases r2) (simp_all add: returns2_def)

lemma radix2_twiddle_sim:
  assumes "sim N R s s2" "0 < istride" "inside N R ii istride (2 * 2 ^ k)"
  shows "returns2 (fft_radix2_twiddle A B ii istride (2 ^ k) w ws r c rs s)
           (fft_radix2_twiddle A B ii istride (2 ^ k) w ws r c rs s2) (sim N R)"
  using assms
proof (induction k arbitrary: ii w r rs s s2)
  case 0
  then show ?case
    by (subst (1 2) fft_radix2_twiddle.simps) (simp add: returns2_Some twiddle_base_sim)
next
  case (Suc k)
  let ?n = "(2::nat) ^ Suc k"
  let ?L = "butterfly_layer B ii istride ?n ((w * ?n) div FLINT_BITS A) w"
  have f0: "sim N R (?L s) (?L s2)"
    using Suc.prems by (intro butterfly_layer_sim) simp_all
  have in1: "inside N R ii istride (2 * 2 ^ k)"
    using Suc.prems(3) by (rule inside_lower) simp
  have in2: "inside N R (ii + ?n * istride) istride (2 * 2 ^ k)"
    using Suc.prems(3) by (intro inside_upper) (simp add: mult_2)
  have "returns2
      (Option.bind (fft_radix2_twiddle A B ii istride (2 ^ k) (2 * w) ws r c (2 * rs) (?L s))
        (fft_radix2_twiddle A B (ii + ?n * istride) istride (2 ^ k) (2 * w) ws (r + rs) c (2 * rs)))
      (Option.bind (fft_radix2_twiddle A B ii istride (2 ^ k) (2 * w) ws r c (2 * rs) (?L s2))
        (fft_radix2_twiddle A B (ii + ?n * istride) istride (2 ^ k) (2 * w) ws (r + rs) c (2 * rs)))
      (sim N R)"
    by (rule returns2_bind[OF Suc.IH[OF f0 Suc.prems(2) in1]])
      (rule Suc.IH[OF _ Suc.prems(2) in2])
  then show ?case
    by (subst (1 2) fft_radix2_twiddle.simps) simp
qed

lemma radix2_frame:
  assumes "own N s" "inside N F ii 1 (2 * 2 ^ k)"
  shows "returns (fft_radix2 A B ii (2 ^ k) w s) (frame N F s)"
  using assms
proof (induction k arbitrary: ii w s)
  case 0
  have "frame N F s (place ii (ii + 1) uv s)" for uv
    using 0 insideD[OF 0(2), of 0] insideD[OF 0(2), of 1] by (intro place_frame) simp_all
  then show ?case
    by (subst fft_radix2.simps) (simp add: returns_Some)
next
  case (Suc k)
  let ?n = "(2::nat) ^ Suc k"
  let ?s0 = "butterfly_layer B ii 1 ?n ((w * ?n) div FLINT_BITS A) w s"
  have f0: "frame N F s ?s0"
    using Suc.prems by (intro butterfly_layer_frame) simp_all
  have in1: "inside N F ii 1 (2 * 2 ^ k)"
    using Suc.prems(2) by (rule inside_lower) simp
  have in2: "inside N F (ii + ?n) 1 (2 * 2 ^ k)"
    using inside_upper[of N F ii 1 ?n "2 * 2 ^ k"] Suc.prems(2) by (simp add: mult_2)
  have r1: "returns (fft_radix2 A B ii (2 ^ k) (2 * w) ?s0) (frame N F s)"
    by (rule returns_mono[OF Suc.IH[OF frame_own[OF f0] in1]]) (rule frame_trans[OF f0])
  have "returns (Option.bind (fft_radix2 A B ii (2 ^ k) (2 * w) ?s0)
      (fft_radix2 A B (ii + ?n) (2 ^ k) (2 * w))) (frame N F s)"
    using r1
  proof (rule returns_bind)
    fix s1 assume f1: "frame N F s s1"
    show "returns (fft_radix2 A B (ii + ?n) (2 ^ k) (2 * w) s1) (frame N F s)"
      by (rule returns_mono[OF Suc.IH[OF frame_own[OF f1] in2]]) (rule frame_trans[OF f1])
  qed
  then show ?case
    by (subst fft_radix2.simps) simp
qed

lemma radix2_sim:
  assumes "sim N R s s2" "inside N R ii 1 (2 * 2 ^ k)"
  shows "returns2 (fft_radix2 A B ii (2 ^ k) w s) (fft_radix2 A B ii (2 ^ k) w s2) (sim N R)"
  using assms
proof (induction k arbitrary: ii w s s2)
  case 0
  have a: "ii < N \<and> ii \<in> R" "ii + 1 < N \<and> ii + 1 \<in> R"
    using insideD[OF 0(2), of 0] insideD[OF 0(2), of 1] by simp_all
  then have "val s ii = val s2 ii" "val s (ii + 1) = val s2 (ii + 1)"
    using 0(1) by (simp_all add: sim_val)
  then show ?case
    using 0(1) a by (subst (1 2) fft_radix2.simps) (simp add: returns2_Some place_sim)
next
  case (Suc k)
  let ?n = "(2::nat) ^ Suc k"
  let ?L = "butterfly_layer B ii 1 ?n ((w * ?n) div FLINT_BITS A) w"
  have f0: "sim N R (?L s) (?L s2)"
    using Suc.prems by (intro butterfly_layer_sim) simp_all
  have in1: "inside N R ii 1 (2 * 2 ^ k)"
    using Suc.prems(2) by (rule inside_lower) simp
  have in2: "inside N R (ii + ?n) 1 (2 * 2 ^ k)"
    using inside_upper[of N R ii 1 ?n "2 * 2 ^ k"] Suc.prems(2) by (simp add: mult_2)
  have "returns2
      (Option.bind (fft_radix2 A B ii (2 ^ k) (2 * w) (?L s)) (fft_radix2 A B (ii + ?n) (2 ^ k) (2 * w)))
      (Option.bind (fft_radix2 A B ii (2 ^ k) (2 * w) (?L s2)) (fft_radix2 A B (ii + ?n) (2 ^ k) (2 * w)))
      (sim N R)"
    by (rule returns2_bind[OF Suc.IH[OF f0 in1]]) (rule Suc.IH[OF _ in2])
  then show ?case
    by (subst (1 2) fft_radix2.simps) simp
qed

lemma add_step_frame:
  assumes "own N s" "i < n" "inside N F ii istride n"
  shows "frame N F s (add_step A ii istride n limbs i s)"
  unfolding add_step_def
  using assms insideD[OF assms(3), of i] by (intro write_slot_frame) simp_all

lemma add_step_sim:
  assumes "sim N R s s2" "i < n" "inside N R ii istride (2 * n)"
  shows "sim N R (add_step A ii istride n limbs i s) (add_step A ii istride n limbs i s2)"
proof -
  have a: "ii + i * istride < N \<and> ii + i * istride \<in> R"
    using insideD[OF assms(3), of i] assms(2) by simp
  have b: "ii + (i + n) * istride < N \<and> ii + (i + n) * istride \<in> R"
    using insideD[OF assms(3), of "i + n"] assms(2) by simp
  have "val s (ii + i * istride) = val s2 (ii + i * istride)"
    "val s (ii + (i + n) * istride) = val s2 (ii + (i + n) * istride)"
    using assms(1) a b by (simp_all add: sim_val)
  then show ?thesis
    unfolding add_step_def using assms a by (simp add: write_slot_sim)
qed

lemma add_layer_frame:
  assumes "own N s" "inside N F ii istride n"
  shows "frame N F s (add_layer A ii istride n limbs s)"
  unfolding add_layer_def
  using assms by (intro fold_frame) (simp_all add: add_step_frame)

lemma add_layer_sim:
  assumes "sim N R s s2" "inside N R ii istride (2 * n)"
  shows "sim N R (add_layer A ii istride n limbs s) (add_layer A ii istride n limbs s2)"
  unfolding add_layer_def
  using assms by (intro fold_sim) (simp_all add: add_step_sim)

lemma truncate1_twiddle_frame:
  assumes "own N s" "0 < istride" "inside N F ii istride (2 * 2 ^ k)"
    "even trunc" "0 < trunc" "trunc \<le> 2 * 2 ^ k"
  shows "returns (fft_truncate1_twiddle A B ii istride (2 ^ k) w ws r c rs trunc s) (frame N F s)"
  using assms
proof (induction k arbitrary: ii w r rs trunc s)
  case 0
  then have "trunc = 2"
    by (auto elim: evenE)
  then show ?case
    using radix2_twiddle_frame[OF 0(1,2,3)]
    by (subst fft_truncate1_twiddle.simps) simp
next
  case (Suc k)
  let ?n = "(2::nat) ^ Suc k"
  let ?limbs = "(w * ?n) div FLINT_BITS A"
  have in1: "inside N F ii istride (2 * 2 ^ k)"
    using Suc.prems(3) by (rule inside_lower) simp
  have in2: "inside N F (ii + ?n * istride) istride (2 * 2 ^ k)"
    using Suc.prems(3) by (intro inside_upper) (simp add: mult_2)
  consider (full) "trunc = 2 * ?n" | (low) "trunc \<le> ?n" | (mid) "?n < trunc" "trunc < 2 * ?n"
    using Suc.prems(6) by fastforce
  then show ?case
  proof cases
    case full
    then show ?thesis
      using radix2_twiddle_frame[OF Suc.prems(1,2,3)]
      by (subst fft_truncate1_twiddle.simps) simp
  next
    case low
    let ?s0 = "add_layer A ii istride ?n ?limbs s"
    have f0: "frame N F s ?s0"
      using Suc.prems(1) in1 by (intro add_layer_frame) simp_all
    have "returns (fft_truncate1_twiddle A B ii istride (2 ^ k) (2 * w) ws r c (2 * rs) trunc ?s0)
        (frame N F s)"
      by (rule returns_mono[OF Suc.IH[OF frame_own[OF f0] Suc.prems(2) in1 Suc.prems(4,5)]])
        (use low in simp, rule frame_trans[OF f0])
    moreover have "trunc \<noteq> 2 * ?n"
    proof -
      have "(0::nat) < 2 ^ k"
        by simp
      with low show ?thesis
        unfolding power_Suc by linarith
    qed
    ultimately show ?thesis
      using low by (subst fft_truncate1_twiddle.simps) simp
  next
    case mid
    let ?s0 = "butterfly_layer B ii istride ?n ?limbs w s"
    have f0: "frame N F s ?s0"
      using Suc.prems by (intro butterfly_layer_frame) simp_all
    have r1: "returns (fft_radix2_twiddle A B ii istride (2 ^ k) (2 * w) ws r c (2 * rs) ?s0) (frame N F s)"
      by (rule returns_mono[OF radix2_twiddle_frame[OF frame_own[OF f0] Suc.prems(2) in1]])
        (rule frame_trans[OF f0])
    have ev: "even (trunc - ?n)" "0 < trunc - ?n" "trunc - ?n \<le> 2 * 2 ^ k"
      using mid Suc.prems(4) by simp_all
    have "returns (Option.bind (fft_radix2_twiddle A B ii istride (2 ^ k) (2 * w) ws r c (2 * rs) ?s0)
        (fft_truncate1_twiddle A B (ii + ?n * istride) istride (2 ^ k) (2 * w) ws (r + rs) c (2 * rs)
          (trunc - ?n))) (frame N F s)"
      using r1
    proof (rule returns_bind)
      fix s1 assume f1: "frame N F s s1"
      show "returns (fft_truncate1_twiddle A B (ii + ?n * istride) istride (2 ^ k) (2 * w) ws (r + rs) c
          (2 * rs) (trunc - ?n) s1) (frame N F s)"
        by (rule returns_mono[OF Suc.IH[OF frame_own[OF f1] Suc.prems(2) in2 ev]])
          (rule frame_trans[OF f1])
    qed
    then show ?thesis
      using mid by (subst fft_truncate1_twiddle.simps) simp
  qed
qed

lemma place_pair_effect:
  assumes "own N s" "a < N" "b < N" "a \<noteq> b"
  shows "pair_effect N a b h s (place a b (h (val s a) (val s b)) s)"
  using assms by (simp add: pair_effect_def place_own place_val[where N=N] place_slot)

lemma write_slot_pair_effect:
  assumes "own N s" "a < N" "b < N" "a \<noteq> b"
  shows "pair_effect N a b (\<lambda>x y. (x, g x y)) s (write_slot b (g (val s a) (val s b)) s)"
  using assms by (simp add: pair_effect_def write_slot_own write_slot_val[where N=N] write_slot_slot)

lemma fold_pairs_val:
  assumes step: "\<And>i s. i < n \<Longrightarrow> own N s \<Longrightarrow> pair_effect N (a i) (b i) (h i) s (f i s)"
    and inj: "\<And>i i'. i < n \<Longrightarrow> i' < n \<Longrightarrow> a i \<noteq> b i' \<and> (a i = a i' \<longrightarrow> i = i') \<and> (b i = b i' \<longrightarrow> i = i')"
    and bound: "\<And>i. i < n \<Longrightarrow> a i < N \<and> b i < N"
    and "own N s" "m \<le> n"
  shows "own N (fold f [0..<m] s) \<and>
     (\<forall>i<m. val (fold f [0..<m] s) (a i) = fst (h i (val s (a i)) (val s (b i))) \<and>
            val (fold f [0..<m] s) (b i) = snd (h i (val s (a i)) (val s (b i)))) \<and>
     (\<forall>j<N. (\<forall>i<m. j \<noteq> a i \<and> j \<noteq> b i) \<longrightarrow> val (fold f [0..<m] s) j = val s j) \<and>
     (\<forall>j. (\<forall>i<m. j \<noteq> a i \<and> j \<noteq> b i) \<longrightarrow> slot (fold f [0..<m] s) j = slot s j)"
  using \<open>m \<le> n\<close>
proof (induction m)
  case 0
  then show ?case using \<open>own N s\<close> by simp
next
  case (Suc m)
  let ?s1 = "fold f [0..<m] s"
  have m: "m < n" using Suc.prems by simp
  have IH: "own N ?s1"
    "\<And>i. i < m \<Longrightarrow> val ?s1 (a i) = fst (h i (val s (a i)) (val s (b i)))"
    "\<And>i. i < m \<Longrightarrow> val ?s1 (b i) = snd (h i (val s (a i)) (val s (b i)))"
    "\<And>j. j < N \<Longrightarrow> (\<forall>i<m. j \<noteq> a i \<and> j \<noteq> b i) \<Longrightarrow> val ?s1 j = val s j"
    "\<And>j. (\<forall>i<m. j \<noteq> a i \<and> j \<noteq> b i) \<Longrightarrow> slot ?s1 j = slot s j"
    using Suc.IH m by simp_all
  have pe: "pair_effect N (a m) (b m) (h m) ?s1 (f m ?s1)"
    using step[OF m IH(1)] .
  have fresh: "a m \<noteq> a i \<and> a m \<noteq> b i \<and> b m \<noteq> a i \<and> b m \<noteq> b i" if "i < m" for i
  proof -
    have i: "i < n" "m \<noteq> i"
      using that m by simp_all
    show ?thesis
      using inj[OF m i(1)] inj[OF i(1) m] i(2) by metis
  qed
  have va: "val ?s1 (a m) = val s (a m)"
    using bound[OF m] fresh by (intro IH(4)) blast+
  have vb: "val ?s1 (b m) = val s (b m)"
    using bound[OF m] fresh by (intro IH(4)) blast+
  have eq: "fold f [0..<Suc m] s = f m ?s1"
    by simp
  have new: "\<And>j. j < N \<Longrightarrow> val (f m ?s1) j =
      (if j = a m then fst (h m (val s (a m)) (val s (b m)))
       else if j = b m then snd (h m (val s (a m)) (val s (b m))) else val ?s1 j)"
    using pe by (simp add: pair_effect_def va vb)
  show ?case
    unfolding eq
  proof (intro conjI allI impI)
    show "own N (f m ?s1)"
      using pe by (simp add: pair_effect_def)
  next
    fix i assume "i < Suc m"
    then consider "i = m" | "i < m" by linarith
    then show "val (f m ?s1) (a i) = fst (h i (val s (a i)) (val s (b i)))"
    proof cases
      case 1
      then show ?thesis using new[of "a m"] bound[OF m] by simp
    next
      case 2
      then have "i < n" using m by simp
      then have "a i \<noteq> a m" "a i \<noteq> b m"
        using fresh[OF 2] by simp_all
      then show ?thesis
        using new[of "a i"] bound[OF \<open>i < n\<close>] IH(2)[OF 2] by simp
    qed
  next
    fix i assume "i < Suc m"
    then consider "i = m" | "i < m" by linarith
    then show "val (f m ?s1) (b i) = snd (h i (val s (a i)) (val s (b i)))"
    proof cases
      case 1
      then show ?thesis using new[of "b m"] bound[OF m] inj[of m m] m by simp
    next
      case 2
      then have "i < n" using m by simp
      then have "b i \<noteq> a m" "b i \<noteq> b m"
        using fresh[OF 2] by simp_all
      then show ?thesis
        using new[of "b i"] bound[OF \<open>i < n\<close>] IH(3)[OF 2] by simp
    qed
  next
    fix j assume j: "j < N" "\<forall>i<Suc m. j \<noteq> a i \<and> j \<noteq> b i"
    then have "val (f m ?s1) j = val ?s1 j"
      using new[of j] by simp
    also have "\<dots> = val s j"
      using j by (intro IH(4)) simp_all
    finally show "val (f m ?s1) j = val s j" .
  next
    fix j assume j: "\<forall>i<Suc m. j \<noteq> a i \<and> j \<noteq> b i"
    then have "slot (f m ?s1) j = slot ?s1 j"
      using pe by (simp add: pair_effect_def)
    also have "\<dots> = slot s j"
      using j by (intro IH(5)) simp_all
    finally show "slot (f m ?s1) j = slot s j" .
  qed
qed

lemma stride_inj: "0 < istride \<Longrightarrow> ii + i * istride = ii + j * istride \<longleftrightarrow> i = (j::nat)"
  by simp

lemma butterfly_layer_val:
  assumes "own N s" "0 < istride" "inside N F ii istride (2 * n)" "i < n"
  shows "val (butterfly_layer B ii istride n limbs w s) (ii + i * istride) =
      fst (fft_butterfly B (val s (ii + i * istride)) (val s (ii + (n + i) * istride)) i limbs w)"
    and "val (butterfly_layer B ii istride n limbs w s) (ii + (n + i) * istride) =
      snd (fft_butterfly B (val s (ii + i * istride)) (val s (ii + (n + i) * istride)) i limbs w)"
proof -
  have "own N (fold (butterfly_step B ii istride n limbs w) [0..<n] s) \<and>
     (\<forall>i<n. val (fold (butterfly_step B ii istride n limbs w) [0..<n] s) (ii + i * istride) =
          fst (fft_butterfly B (val s (ii + i * istride)) (val s (ii + (n + i) * istride)) i limbs w) \<and>
        val (fold (butterfly_step B ii istride n limbs w) [0..<n] s) (ii + (n + i) * istride) =
          snd (fft_butterfly B (val s (ii + i * istride)) (val s (ii + (n + i) * istride)) i limbs w)) \<and>
     (\<forall>j<N. (\<forall>i<n. j \<noteq> ii + i * istride \<and> j \<noteq> ii + (n + i) * istride) \<longrightarrow>
        val (fold (butterfly_step B ii istride n limbs w) [0..<n] s) j = val s j) \<and>
     (\<forall>j. (\<forall>i<n. j \<noteq> ii + i * istride \<and> j \<noteq> ii + (n + i) * istride) \<longrightarrow>
        slot (fold (butterfly_step B ii istride n limbs w) [0..<n] s) j = slot s j)"
  proof (rule fold_pairs_val[where h="\<lambda>i x y. fft_butterfly B x y i limbs w" and n=n])
    fix i s assume "i < n" "own N (s::'a state)"
    then show "pair_effect N (ii + i * istride) (ii + (n + i) * istride)
       (\<lambda>x y. fft_butterfly B x y i limbs w) s (butterfly_step B ii istride n limbs w i s)"
      unfolding butterfly_step_def
      using insideD[OF assms(3), of i] insideD[OF assms(3), of "n + i"] assms(2)
      by (intro place_pair_effect) simp_all
  next
    fix i i' assume "i < n" "i' < n"
    then show "ii + i * istride \<noteq> ii + (n + i') * istride \<and>
      (ii + i * istride = ii + i' * istride \<longrightarrow> i = i') \<and>
      (ii + (n + i) * istride = ii + (n + i') * istride \<longrightarrow> i = i')"
      using assms(2) by simp
  next
    fix i assume "i < n"
    then show "ii + i * istride < N \<and> ii + (n + i) * istride < N"
      using insideD[OF assms(3), of i] insideD[OF assms(3), of "n + i"] by simp
  qed (use assms in simp_all)
  then show "val (butterfly_layer B ii istride n limbs w s) (ii + i * istride) =
      fst (fft_butterfly B (val s (ii + i * istride)) (val s (ii + (n + i) * istride)) i limbs w)"
    and "val (butterfly_layer B ii istride n limbs w s) (ii + (n + i) * istride) =
      snd (fft_butterfly B (val s (ii + i * istride)) (val s (ii + (n + i) * istride)) i limbs w)"
    using assms(4) by (simp_all add: butterfly_layer_def)
qed

lemma add_layer_val:
  assumes "own N s" "0 < istride" "inside N F ii istride (2 * n)" "i < n"
  shows "val (add_layer A ii istride n limbs s) (ii + i * istride) =
      mpn_add_n A (val s (ii + i * istride)) (val s (ii + (i + n) * istride)) (limbs + 1)"
    and "val (add_layer A ii istride n limbs s) (ii + (i + n) * istride) = val s (ii + (i + n) * istride)"
proof -
  have "own N (fold (add_step A ii istride n limbs) [0..<n] s) \<and>
     (\<forall>i<n. val (fold (add_step A ii istride n limbs) [0..<n] s) (ii + (i + n) * istride) =
          fst (val s (ii + (i + n) * istride),
               mpn_add_n A (val s (ii + i * istride)) (val s (ii + (i + n) * istride)) (limbs + 1)) \<and>
        val (fold (add_step A ii istride n limbs) [0..<n] s) (ii + i * istride) =
          snd (val s (ii + (i + n) * istride),
               mpn_add_n A (val s (ii + i * istride)) (val s (ii + (i + n) * istride)) (limbs + 1))) \<and>
     (\<forall>j<N. (\<forall>i<n. j \<noteq> ii + (i + n) * istride \<and> j \<noteq> ii + i * istride) \<longrightarrow>
        val (fold (add_step A ii istride n limbs) [0..<n] s) j = val s j) \<and>
     (\<forall>j. (\<forall>i<n. j \<noteq> ii + (i + n) * istride \<and> j \<noteq> ii + i * istride) \<longrightarrow>
        slot (fold (add_step A ii istride n limbs) [0..<n] s) j = slot s j)"
  proof (rule fold_pairs_val[where h="\<lambda>i x y. (x, mpn_add_n A y x (limbs + 1))" and n=n])
    fix i s assume "i < n" "own N (s::'a state)"
    then show "pair_effect N (ii + (i + n) * istride) (ii + i * istride)
       (\<lambda>x y. (x, mpn_add_n A y x (limbs + 1))) s (add_step A ii istride n limbs i s)"
      unfolding add_step_def
      using insideD[OF assms(3), of i] insideD[OF assms(3), of "i + n"] assms(2)
      by (intro write_slot_pair_effect) simp_all
  next
    fix i i' assume "i < n" "i' < n"
    then show "ii + (i + n) * istride \<noteq> ii + i' * istride \<and>
      (ii + (i + n) * istride = ii + (i' + n) * istride \<longrightarrow> i = i') \<and>
      (ii + i * istride = ii + i' * istride \<longrightarrow> i = i')"
      using assms(2) by simp
  next
    fix i assume "i < n"
    then show "ii + (i + n) * istride < N \<and> ii + i * istride < N"
      using insideD[OF assms(3), of i] insideD[OF assms(3), of "i + n"] by simp
  qed (use assms in simp_all)
  then show "val (add_layer A ii istride n limbs s) (ii + i * istride) =
      mpn_add_n A (val s (ii + i * istride)) (val s (ii + (i + n) * istride)) (limbs + 1)"
    and "val (add_layer A ii istride n limbs s) (ii + (i + n) * istride) = val s (ii + (i + n) * istride)"
    using assms(4) by (simp_all add: add_layer_def)
qed

section \<open>The claims\<close>

lemma radix2_twiddle_returns:
  "fft_radix2_twiddle A B ii istride (2 ^ k) w ws r c rs s \<noteq> None"
proof (induction k arbitrary: ii w r rs s)
  case 0
  show ?case
    by (subst fft_radix2_twiddle.simps) simp
next
  case (Suc k)
  show ?case
    by (subst fft_radix2_twiddle.simps) (simp add: bind_eq_None_conv Suc)
qed

text \<open>
  Claim C4. Called with \<open>trunc = 2 * n\<close>, \<^verbatim>\<open>fft_truncate1_twiddle\<close> is
  \<^verbatim>\<open>fft_radix2_twiddle\<close> on the same arguments: the two calls return the same state
  (the same slot-to-buffer assignment and the same buffer contents), or neither
  returns; and for a power-of-two \<open>n\<close> the call does return.
\<close>

theorem fft_truncate1_twiddle_full:
  "fft_truncate1_twiddle A B ii istride n w ws r c rs (2 * n) s =
     fft_radix2_twiddle A B ii istride n w ws r c rs s \<and>
   fft_truncate1_twiddle A B ii istride (2 ^ k) w ws r c rs (2 * 2 ^ k) s \<noteq> None"
proof
  show eq: "fft_truncate1_twiddle A B ii istride n w ws r c rs (2 * n) s =
     fft_radix2_twiddle A B ii istride n w ws r c rs s" for n
    by (subst fft_truncate1_twiddle.simps) simp
  show "fft_truncate1_twiddle A B ii istride (2 ^ k) w ws r c rs (2 * 2 ^ k) s \<noteq> None"
    unfolding eq by (rule radix2_twiddle_returns)
qed

lemma place_pointers:
  "slot (place a b uv s) b = t2 s" "a \<noteq> b \<Longrightarrow> slot (place a b uv s) a = t1 s"
  "t1 (place a b uv s) = slot s a" "a \<noteq> b \<Longrightarrow> t2 (place a b uv s) = slot s b"
  by (simp_all add: place_def SWAP_PTRS_t1_def SWAP_PTRS_t2_def write_t1_t2_def)

text \<open>
  Claim C5. \<^verbatim>\<open>fft_radix2_twiddle\<close> on a signal without aliasing. At \<open>n = 1\<close> it
  returns after one twiddled butterfly of the slots \<open>ii\<close> and \<open>ii + istride\<close> with the
  exponents \<open>tw1 * ws = r * c * ws\<close> and \<open>tw2 * ws = (r * c + rs * c) * ws\<close>; the two
  results are in the former scratch buffers, which the two slots now own, and the scratch
  pointers own the slots' former buffers. At \<open>n = 2 ^ Suc k\<close> it is one layer of plain
  butterflies, pair \<open>i\<close> with \<open>n + i\<close> at index \<open>i\<close> and weight \<open>w\<close> for every \<open>i < n\<close>,
  then the transform of length \<open>n div 2\<close> on the lower half with \<open>(r, c, 2 * rs)\<close> and
  on the upper half with \<open>(r + rs, c, 2 * rs)\<close>, both at weight \<open>2 * w\<close>.
\<close>

theorem fft_radix2_twiddle_structure:
  assumes "own N s" "0 < istride" "inside N UNIV ii istride (2 * 2 ^ Suc k)"
  shows "(\<exists>s'. fft_radix2_twiddle A B ii istride 1 w ws r c rs s = Some s' \<and>
           slot s' ii = t1 s \<and> slot s' (ii + istride) = t2 s \<and>
           t1 s' = slot s ii \<and> t2 s' = slot s (ii + istride) \<and>
           (val s' ii, val s' (ii + istride)) =
             fft_butterfly_twiddle A (val s ii) (val s (ii + istride)) (w div FLINT_BITS A)
               (r * c * ws) ((r * c + rs * c) * ws)) \<and>
         fft_radix2_twiddle A B ii istride (2 ^ Suc k) w ws r c rs s =
           Option.bind
             (fft_radix2_twiddle A B ii istride (2 ^ k) (2 * w) ws r c (2 * rs)
               (butterfly_layer B ii istride (2 ^ Suc k) ((w * 2 ^ Suc k) div FLINT_BITS A) w s))
             (fft_radix2_twiddle A B (ii + 2 ^ Suc k * istride) istride (2 ^ k) (2 * w) ws (r + rs) c
               (2 * rs)) \<and>
         (\<forall>i<2 ^ Suc k.
           (val (butterfly_layer B ii istride (2 ^ Suc k) ((w * 2 ^ Suc k) div FLINT_BITS A) w s)
              (ii + i * istride),
            val (butterfly_layer B ii istride (2 ^ Suc k) ((w * 2 ^ Suc k) div FLINT_BITS A) w s)
              (ii + (2 ^ Suc k + i) * istride)) =
           fft_butterfly B (val s (ii + i * istride)) (val s (ii + (2 ^ Suc k + i) * istride)) i
             ((w * 2 ^ Suc k) div FLINT_BITS A) w)"
proof (intro conjI allI impI)
  have "(1::nat) \<le> 2 ^ k"
    by simp
  then have "(1::nat) < 2 * 2 ^ Suc k"
    unfolding power_Suc by linarith
  then have lt: "ii < N" "ii + istride < N"
    using insideD[OF assms(3), of 0] insideD[OF assms(3), of 1] by simp_all
  let ?uv = "fft_butterfly_twiddle A (val s ii) (val s (ii + istride)) (w div FLINT_BITS A)
               (r * c * ws) ((r * c + rs * c) * ws)"
  have "fft_radix2_twiddle A B ii istride 1 w ws r c rs s = Some (place ii (ii + istride) ?uv s)"
    by (subst fft_radix2_twiddle.simps) (simp add: twiddle_base_def Let_def)
  moreover have "val (place ii (ii + istride) ?uv s) ii = fst ?uv"
    "val (place ii (ii + istride) ?uv s) (ii + istride) = snd ?uv"
    using assms(1,2) lt by (simp_all add: place_val[where N=N])
  ultimately show "\<exists>s'. fft_radix2_twiddle A B ii istride 1 w ws r c rs s = Some s' \<and>
           slot s' ii = t1 s \<and> slot s' (ii + istride) = t2 s \<and>
           t1 s' = slot s ii \<and> t2 s' = slot s (ii + istride) \<and>
           (val s' ii, val s' (ii + istride)) = ?uv"
    using assms(2) by (simp add: place_pointers)
next
  show "fft_radix2_twiddle A B ii istride (2 ^ Suc k) w ws r c rs s =
           Option.bind
             (fft_radix2_twiddle A B ii istride (2 ^ k) (2 * w) ws r c (2 * rs)
               (butterfly_layer B ii istride (2 ^ Suc k) ((w * 2 ^ Suc k) div FLINT_BITS A) w s))
             (fft_radix2_twiddle A B (ii + 2 ^ Suc k * istride) istride (2 ^ k) (2 * w) ws (r + rs) c
               (2 * rs))"
    by (subst fft_radix2_twiddle.simps) simp
next
  fix i :: nat assume "i < 2 ^ Suc k"
  then show "(val (butterfly_layer B ii istride (2 ^ Suc k) ((w * 2 ^ Suc k) div FLINT_BITS A) w s)
              (ii + i * istride),
            val (butterfly_layer B ii istride (2 ^ Suc k) ((w * 2 ^ Suc k) div FLINT_BITS A) w s)
              (ii + (2 ^ Suc k + i) * istride)) =
           fft_butterfly B (val s (ii + i * istride)) (val s (ii + (2 ^ Suc k + i) * istride)) i
             ((w * 2 ^ Suc k) div FLINT_BITS A) w"
    using butterfly_layer_val[OF assms, of i] by (simp add: prod_eq_iff)
qed

theorem fft_radix2_twiddle_structure_witness:
  "fft_radix2_twiddle sym_arith sym_bfly 0 1 2 128 64 1 1 1 signal0 =
     Option.bind
       (fft_radix2_twiddle sym_arith sym_bfly 0 1 1 256 64 1 1 2
          (butterfly_layer sym_bfly 0 1 2 4 128 signal0))
       (fft_radix2_twiddle sym_arith sym_bfly 2 1 1 256 64 2 1 2) \<and>
   (\<exists>s'. fft_radix2_twiddle sym_arith sym_bfly 0 1 1 128 64 1 1 1 signal0 = Some s' \<and>
      slot s' 0 = 1000 \<and> slot s' 1 = 1001 \<and> t1 s' = 0 \<and> t2 s' = 1 \<and>
      val s' 0 = Op Mul_2exp [Op LshB_u [Init 0, Init 1] [2, 1, 0]] [2, 0] \<and>
      val s' 1 = Op Neg [Op Mul_2exp [Op LshB_v [Init 0, Init 1] [2, 1, 0]] [2, 0]] [3])"
proof -
  have own: "own 4 signal0"
    by (simp add: own_def signal0_def upt_conv_Cons)
  have ins: "inside 4 UNIV 0 1 (2 * 2 ^ Suc 0)"
    by (simp add: inside_def)
  note th = fft_radix2_twiddle_structure[where N=4 and s=signal0 and istride=1 and ii=0 and k=0
        and A=sym_arith and B=sym_bfly and w=128 and ws=64 and r=1 and c=1 and rs=1, OF own _ ins]
  show ?thesis
    using th
    by (auto simp: signal0_def val_def fft_butterfly_twiddle_def sym_arith_def numeral_2_eq_2)
qed

lemma fold_write_slot_ptrs:
  assumes "\<And>i s. f i s = write_slot (b i s) (x i s) s"
  shows "slot (fold f xs s) = slot s \<and> t1 (fold f xs s) = t1 s \<and> t2 (fold f xs s) = t2 s
     \<and> temp (fold f xs s) = temp s"
  by (induction xs arbitrary: s) (simp_all add: assms write_slot_def)

lemma add_layer_ptrs:
  "slot (add_layer A ii istride n limbs s) = slot s \<and> t1 (add_layer A ii istride n limbs s) = t1 s
     \<and> t2 (add_layer A ii istride n limbs s) = t2 s \<and> temp (add_layer A ii istride n limbs s) = temp s"
  unfolding add_layer_def
  by (rule fold_write_slot_ptrs) (simp add: add_step_def)

lemma truncate1_twiddle_returns:
  assumes "even trunc" "0 < trunc" "trunc \<le> 2 * 2 ^ k"
  shows "\<exists>s'. fft_truncate1_twiddle A B ii istride (2 ^ k) w ws r c rs trunc s = Some s'"
  using assms
proof (induction k arbitrary: ii w r rs trunc s)
  case 0
  then have "trunc = 2"
    by (auto elim: evenE)
  then show ?case
    using radix2_twiddle_returns[of A B ii istride 0 w ws r c rs s]
    by (subst fft_truncate1_twiddle.simps) simp
next
  case (Suc k)
  let ?n = "(2::nat) ^ Suc k"
  let ?limbs = "(w * ?n) div FLINT_BITS A"
  consider (full) "trunc = 2 * ?n" | (low) "trunc \<le> ?n" | (mid) "?n < trunc" "trunc < 2 * ?n"
    using Suc.prems(3) by fastforce
  then show ?case
  proof cases
    case full
    then show ?thesis
      using radix2_twiddle_returns[of A B ii istride "Suc k" w ws r c rs s]
      by (subst fft_truncate1_twiddle.simps) simp
  next
    case low
    have ne: "trunc \<noteq> 2 * ?n"
    proof -
      have "(0::nat) < 2 ^ k"
        by simp
      with low show ?thesis
        unfolding power_Suc by linarith
    qed
    have le: "trunc \<le> 2 * 2 ^ k"
      using low by simp
    from Suc.IH[OF Suc.prems(1,2) le] show ?thesis
      using low ne by (subst fft_truncate1_twiddle.simps) simp
  next
    case mid
    let ?s0 = "butterfly_layer B ii istride ?n ?limbs w s"
    obtain s1 where s1: "fft_radix2_twiddle A B ii istride (2 ^ k) (2 * w) ws r c (2 * rs) ?s0 = Some s1"
      using radix2_twiddle_returns[of A B ii istride k "2 * w" ws r c "2 * rs" ?s0] by blast
    have ev: "even (trunc - ?n)" "0 < trunc - ?n" "trunc - ?n \<le> 2 * 2 ^ k"
      using mid Suc.prems(1) by simp_all
    from Suc.IH[OF ev] show ?thesis
      using mid s1 by (subst fft_truncate1_twiddle.simps) simp
  qed
qed

text \<open>
  Claim C3. \<^verbatim>\<open>fft_truncate1_twiddle\<close> at \<open>n = 2 ^ k\<close> on a signal without aliasing.
  When \<open>trunc \<le> n\<close> it is the truncated transform of length \<open>n div 2\<close>, weight
  \<open>2 * w\<close>, the same \<open>(r, c)\<close>, \<open>2 * rs\<close> and the same \<open>trunc\<close>, run on the state after
  the fold: the fold changes no pointer, puts \<^verbatim>\<open>mpn_add_n\<close> of slot \<open>i\<close> and slot
  \<open>i + n\<close> into slot \<open>i\<close> for every \<open>i < n\<close> and leaves slot \<open>i + n\<close> as it was.
  When \<open>n < trunc < 2 * n\<close> it is one layer of plain butterflies (pair \<open>i\<close> with
  \<open>n + i\<close>, index \<open>i\<close>, weight \<open>w\<close>, for every \<open>i < n\<close>), then the full twiddled
  transform of length \<open>n div 2\<close> on the lower half with \<open>(r, c, 2 * rs)\<close>, then the
  truncated one on the upper half with \<open>trunc - n\<close> and row \<open>r + rs\<close>.
  When \<open>trunc = 2 * n\<close> it is the full twiddled transform. For an even, positive
  \<open>trunc\<close> every one of these calls returns: the recursive calls return a state and
  the call returns that state. (At \<open>trunc = 0\<close> the recursion reaches \<open>n = 0\<close> and
  never ends.)
\<close>

theorem fft_truncate1_twiddle_case_split:
  assumes "own N s" "0 < istride" "inside N UNIV ii istride (2 * 2 ^ k)"
  shows "(trunc \<le> 2 ^ k \<longrightarrow>
           fft_truncate1_twiddle A B ii istride (2 ^ k) w ws r c rs trunc s =
             fft_truncate1_twiddle A B ii istride (2 ^ k div 2) (2 * w) ws r c (2 * rs) trunc
               (add_layer A ii istride (2 ^ k) ((w * 2 ^ k) div FLINT_BITS A) s) \<and>
           slot (add_layer A ii istride (2 ^ k) ((w * 2 ^ k) div FLINT_BITS A) s) = slot s \<and>
           t1 (add_layer A ii istride (2 ^ k) ((w * 2 ^ k) div FLINT_BITS A) s) = t1 s \<and>
           t2 (add_layer A ii istride (2 ^ k) ((w * 2 ^ k) div FLINT_BITS A) s) = t2 s \<and>
           (\<forall>i<2 ^ k.
              val (add_layer A ii istride (2 ^ k) ((w * 2 ^ k) div FLINT_BITS A) s) (ii + i * istride) =
                mpn_add_n A (val s (ii + i * istride)) (val s (ii + (i + 2 ^ k) * istride))
                  ((w * 2 ^ k) div FLINT_BITS A + 1) \<and>
              val (add_layer A ii istride (2 ^ k) ((w * 2 ^ k) div FLINT_BITS A) s)
                  (ii + (i + 2 ^ k) * istride) =
                val s (ii + (i + 2 ^ k) * istride)) \<and>
           (even trunc \<and> 0 < trunc \<longrightarrow>
              (\<exists>s'. fft_truncate1_twiddle A B ii istride (2 ^ k div 2) (2 * w) ws r c (2 * rs) trunc
                      (add_layer A ii istride (2 ^ k) ((w * 2 ^ k) div FLINT_BITS A) s) = Some s' \<and>
                    fft_truncate1_twiddle A B ii istride (2 ^ k) w ws r c rs trunc s = Some s'))) \<and>
         (2 ^ k < trunc \<and> trunc < 2 * 2 ^ k \<longrightarrow>
           fft_truncate1_twiddle A B ii istride (2 ^ k) w ws r c rs trunc s =
             Option.bind
               (fft_radix2_twiddle A B ii istride (2 ^ k div 2) (2 * w) ws r c (2 * rs)
                 (butterfly_layer B ii istride (2 ^ k) ((w * 2 ^ k) div FLINT_BITS A) w s))
               (fft_truncate1_twiddle A B (ii + 2 ^ k * istride) istride (2 ^ k div 2) (2 * w) ws
                 (r + rs) c (2 * rs) (trunc - 2 ^ k)) \<and>
           (\<forall>i<2 ^ k.
              (val (butterfly_layer B ii istride (2 ^ k) ((w * 2 ^ k) div FLINT_BITS A) w s)
                 (ii + i * istride),
               val (butterfly_layer B ii istride (2 ^ k) ((w * 2 ^ k) div FLINT_BITS A) w s)
                 (ii + (2 ^ k + i) * istride)) =
              fft_butterfly B (val s (ii + i * istride)) (val s (ii + (2 ^ k + i) * istride)) i
                ((w * 2 ^ k) div FLINT_BITS A) w) \<and>
           (even trunc \<longrightarrow>
              (\<exists>s1 s'.
                 fft_radix2_twiddle A B ii istride (2 ^ k div 2) (2 * w) ws r c (2 * rs)
                   (butterfly_layer B ii istride (2 ^ k) ((w * 2 ^ k) div FLINT_BITS A) w s) = Some s1 \<and>
                 fft_truncate1_twiddle A B (ii + 2 ^ k * istride) istride (2 ^ k div 2) (2 * w) ws
                   (r + rs) c (2 * rs) (trunc - 2 ^ k) s1 = Some s' \<and>
                 fft_truncate1_twiddle A B ii istride (2 ^ k) w ws r c rs trunc s = Some s'))) \<and>
         (trunc = 2 * 2 ^ k \<longrightarrow>
           (\<exists>s'. fft_radix2_twiddle A B ii istride (2 ^ k) w ws r c rs s = Some s' \<and>
                 fft_truncate1_twiddle A B ii istride (2 ^ k) w ws r c rs trunc s = Some s'))"
proof (intro conjI impI allI)
  assume low: "trunc \<le> 2 ^ k"
  have "(0::nat) < 2 ^ k"
    by simp
  with low have "trunc \<noteq> 2 * 2 ^ k"
    by linarith
  with low show "fft_truncate1_twiddle A B ii istride (2 ^ k) w ws r c rs trunc s =
             fft_truncate1_twiddle A B ii istride (2 ^ k div 2) (2 * w) ws r c (2 * rs) trunc
               (add_layer A ii istride (2 ^ k) ((w * 2 ^ k) div FLINT_BITS A) s)"
    by (subst fft_truncate1_twiddle.simps) simp
next
  show "slot (add_layer A ii istride (2 ^ k) ((w * 2 ^ k) div FLINT_BITS A) s) = slot s"
    "t1 (add_layer A ii istride (2 ^ k) ((w * 2 ^ k) div FLINT_BITS A) s) = t1 s"
    "t2 (add_layer A ii istride (2 ^ k) ((w * 2 ^ k) div FLINT_BITS A) s) = t2 s"
    by (simp_all add: add_layer_ptrs)
next
  fix i :: nat assume "i < 2 ^ k"
  then show "val (add_layer A ii istride (2 ^ k) ((w * 2 ^ k) div FLINT_BITS A) s) (ii + i * istride) =
                mpn_add_n A (val s (ii + i * istride)) (val s (ii + (i + 2 ^ k) * istride))
                  ((w * 2 ^ k) div FLINT_BITS A + 1)"
    "val (add_layer A ii istride (2 ^ k) ((w * 2 ^ k) div FLINT_BITS A) s)
                  (ii + (i + 2 ^ k) * istride) =
                val s (ii + (i + 2 ^ k) * istride)"
    by (rule add_layer_val[OF assms])+
next
  assume mid: "2 ^ k < trunc \<and> trunc < 2 * 2 ^ k"
  then show "fft_truncate1_twiddle A B ii istride (2 ^ k) w ws r c rs trunc s =
             Option.bind
               (fft_radix2_twiddle A B ii istride (2 ^ k div 2) (2 * w) ws r c (2 * rs)
                 (butterfly_layer B ii istride (2 ^ k) ((w * 2 ^ k) div FLINT_BITS A) w s))
               (fft_truncate1_twiddle A B (ii + 2 ^ k * istride) istride (2 ^ k div 2) (2 * w) ws
                 (r + rs) c (2 * rs) (trunc - 2 ^ k))"
    by (subst fft_truncate1_twiddle.simps) simp
next
  fix i :: nat assume "i < 2 ^ k"
  then show "(val (butterfly_layer B ii istride (2 ^ k) ((w * 2 ^ k) div FLINT_BITS A) w s)
                 (ii + i * istride),
               val (butterfly_layer B ii istride (2 ^ k) ((w * 2 ^ k) div FLINT_BITS A) w s)
                 (ii + (2 ^ k + i) * istride)) =
              fft_butterfly B (val s (ii + i * istride)) (val s (ii + (2 ^ k + i) * istride)) i
                ((w * 2 ^ k) div FLINT_BITS A) w"
    using butterfly_layer_val[OF assms, of i] by (simp add: prod_eq_iff)
next
  assume low: "trunc \<le> 2 ^ k" and ev: "even trunc \<and> 0 < trunc"
  have "k \<noteq> 0"
  proof
    assume "k = 0"
    with low ev show False
      by (auto elim: evenE)
  qed
  then obtain k' where k: "k = Suc k'"
    by (cases k) simp_all
  have half: "(2::nat) ^ k div 2 = 2 ^ k'"
    by (simp add: k)
  have le: "trunc \<le> 2 * 2 ^ k'"
    using low by (simp add: k)
  obtain s' where s': "fft_truncate1_twiddle A B ii istride (2 ^ k') (2 * w) ws r c (2 * rs) trunc
      (add_layer A ii istride (2 ^ k) ((w * 2 ^ k) div FLINT_BITS A) s) = Some s'"
    using truncate1_twiddle_returns[OF conjunct1[OF ev] conjunct2[OF ev] le] by blast
  have "(0::nat) < 2 ^ k"
    by simp
  with low have ne: "trunc \<noteq> 2 * 2 ^ k"
    by linarith
  have "fft_truncate1_twiddle A B ii istride (2 ^ k) w ws r c rs trunc s = Some s'"
    using low ne s' by (subst fft_truncate1_twiddle.simps) (simp add: half)
  with s' show "\<exists>s'. fft_truncate1_twiddle A B ii istride (2 ^ k div 2) (2 * w) ws r c (2 * rs) trunc
      (add_layer A ii istride (2 ^ k) ((w * 2 ^ k) div FLINT_BITS A) s) = Some s' \<and>
      fft_truncate1_twiddle A B ii istride (2 ^ k) w ws r c rs trunc s = Some s'"
    unfolding half by blast
next
  assume mid: "2 ^ k < trunc \<and> trunc < 2 * 2 ^ k" and ev: "even trunc"
  have "k \<noteq> 0"
  proof
    assume "k = 0"
    with mid have "1 < trunc \<and> trunc < 2"
      by simp
    then show False
      by linarith
  qed
  then obtain k' where k: "k = Suc k'"
    by (cases k) simp_all
  have half: "(2::nat) ^ k div 2 = 2 ^ k'"
    by (simp add: k)
  let ?s0 = "butterfly_layer B ii istride (2 ^ k) ((w * 2 ^ k) div FLINT_BITS A) w s"
  obtain s1 where s1: "fft_radix2_twiddle A B ii istride (2 ^ k') (2 * w) ws r c (2 * rs) ?s0 = Some s1"
    using radix2_twiddle_returns[of A B ii istride k' "2 * w" ws r c "2 * rs" ?s0] by blast
  have ev': "even (trunc - 2 ^ k)" "0 < trunc - 2 ^ k"
    using mid ev by (simp_all add: k)
  have "trunc - 2 ^ k \<le> 2 ^ k"
    using mid by linarith
  then have le: "trunc - 2 ^ k \<le> 2 * 2 ^ k'"
    by (simp add: k)
  obtain s' where s': "fft_truncate1_twiddle A B (ii + 2 ^ k * istride) istride (2 ^ k') (2 * w) ws
      (r + rs) c (2 * rs) (trunc - 2 ^ k) s1 = Some s'"
    using truncate1_twiddle_returns[OF ev' le] by blast
  have "fft_truncate1_twiddle A B ii istride (2 ^ k) w ws r c rs trunc s = Some s'"
    using mid s1 s' by (subst fft_truncate1_twiddle.simps) (simp add: half)
  with s1 s' show "\<exists>s1 s'.
      fft_radix2_twiddle A B ii istride (2 ^ k div 2) (2 * w) ws r c (2 * rs) ?s0 = Some s1 \<and>
      fft_truncate1_twiddle A B (ii + 2 ^ k * istride) istride (2 ^ k div 2) (2 * w) ws
        (r + rs) c (2 * rs) (trunc - 2 ^ k) s1 = Some s' \<and>
      fft_truncate1_twiddle A B ii istride (2 ^ k) w ws r c rs trunc s = Some s'"
    unfolding half by blast
next
  assume full: "trunc = 2 * 2 ^ k"
  obtain s' where s': "fft_radix2_twiddle A B ii istride (2 ^ k) w ws r c rs s = Some s'"
    using radix2_twiddle_returns[of A B ii istride k w ws r c rs s] by blast
  have "fft_truncate1_twiddle A B ii istride (2 ^ k) w ws r c rs trunc s = Some s'"
    using full s' by (subst fft_truncate1_twiddle.simps) simp
  with s' show "\<exists>s'. fft_radix2_twiddle A B ii istride (2 ^ k) w ws r c rs s = Some s' \<and>
      fft_truncate1_twiddle A B ii istride (2 ^ k) w ws r c rs trunc s = Some s'"
    by blast
qed

lemma inside_strided: "inside N UNIV ii istride m \<Longrightarrow> inside N (strided ii istride m) ii istride m"
  by (auto simp: inside_def strided_def)

text \<open>
  Claim C10. \<^verbatim>\<open>fft_truncate1_twiddle\<close> with \<open>trunc \<le> n\<close> (\<open>n = 2 ^ k\<close>, \<open>trunc\<close>
  even and positive) on a signal without aliasing returns, and it only reads the upper
  half: every slot \<open>ii + (i + n) * istride\<close> still owns the buffer it owned, with the
  contents it had; no slot outside the lower \<open>n\<close> slots of the call changes its buffer
  or its contents.
\<close>

theorem fft_truncate1_twiddle_upper_half_frame:
  assumes "own N s" "0 < istride" "inside N UNIV ii istride (2 * 2 ^ k)"
    "even trunc" "0 < trunc" "trunc \<le> 2 ^ k"
  shows "\<exists>s'. fft_truncate1_twiddle A B ii istride (2 ^ k) w ws r c rs trunc s = Some s' \<and>
      own N s' \<and>
      (\<forall>i<2 ^ k. slot s' (ii + (i + 2 ^ k) * istride) = slot s (ii + (i + 2 ^ k) * istride) \<and>
                 buf s' (slot s (ii + (i + 2 ^ k) * istride)) = buf s (slot s (ii + (i + 2 ^ k) * istride))) \<and>
      (\<forall>j. j \<notin> strided ii istride (2 ^ k) \<longrightarrow> slot s' j = slot s j) \<and>
      (\<forall>j<N. j \<notin> strided ii istride (2 ^ k) \<longrightarrow> val s' j = val s j)"
proof -
  let ?n = "(2::nat) ^ k"
  let ?F = "strided ii istride ?n"
  obtain k' where k: "k = Suc k'"
    using assms(4,5,6) by (cases k) auto
  have low: "inside N UNIV ii istride ?n"
    using assms(3) by (rule inside_lower) simp
  have inF: "inside N ?F ii istride ?n"
    using low by (rule inside_strided)
  let ?s0 = "add_layer A ii istride ?n ((w * ?n) div FLINT_BITS A) s"
  have f0: "frame N ?F s ?s0"
    using assms(1) inF by (rule add_layer_frame)
  have inF': "inside N ?F ii istride (2 * 2 ^ k')"
    using inF by (simp add: k)
  have le: "trunc \<le> 2 * 2 ^ k'"
    using assms(6) by (simp add: k)
  have r: "returns (fft_truncate1_twiddle A B ii istride (2 ^ k') (2 * w) ws r c (2 * rs) trunc ?s0)
      (frame N ?F s)"
    by (rule returns_mono[OF truncate1_twiddle_frame[OF frame_own[OF f0] assms(2) inF' assms(4,5) le]])
      (rule frame_trans[OF f0])
  have "(0::nat) < 2 ^ k"
    by simp
  with assms(6) have ne: "trunc \<noteq> 2 * 2 ^ k"
    by linarith
  have eq: "fft_truncate1_twiddle A B ii istride (2 ^ k) w ws r c rs trunc s =
      fft_truncate1_twiddle A B ii istride (2 ^ k') (2 * w) ws r c (2 * rs) trunc ?s0"
    using ne assms(6) by (subst fft_truncate1_twiddle.simps) (simp add: k)
  from r obtain s' where s': "fft_truncate1_twiddle A B ii istride (2 ^ k) w ws r c rs trunc s = Some s'"
    and fr: "frame N ?F s s'"
    unfolding eq by (blast dest: returnsE)
  have up: "ii + (i + ?n) * istride \<notin> ?F \<and> ii + (i + ?n) * istride < N" if "i < ?n" for i
  proof
    show "ii + (i + ?n) * istride \<notin> ?F"
      using assms(2) by (auto simp: strided_def)
    show "ii + (i + ?n) * istride < N"
      using insideD[OF assms(3), of "i + ?n"] that by simp
  qed
  have "slot s' (ii + (i + ?n) * istride) = slot s (ii + (i + ?n) * istride) \<and>
      buf s' (slot s (ii + (i + ?n) * istride)) = buf s (slot s (ii + (i + ?n) * istride))"
    if "i < ?n" for i
  proof -
    have a: "slot s' (ii + (i + ?n) * istride) = slot s (ii + (i + ?n) * istride)"
      using fr up[OF that] by (simp add: frame_def)
    have "val s' (ii + (i + ?n) * istride) = val s (ii + (i + ?n) * istride)"
      using fr up[OF that] by (simp add: frame_def)
    with a show ?thesis
      by (simp add: val_def)
  qed
  then show ?thesis
    using s' fr by (auto simp: frame_def)
qed

theorem fft_truncate1_twiddle_case_split_witness:
  "fft_truncate1_twiddle sym_arith sym_bfly 0 1 4 64 1 0 0 1 2 signal0 =
     fft_truncate1_twiddle sym_arith sym_bfly 0 1 2 128 1 0 0 2 2
       (add_layer sym_arith 0 1 4 4 signal0) \<and>
   val (add_layer sym_arith 0 1 4 4 signal0) 1 = Op Add [Init 1, Init 5] [5] \<and>
   val (add_layer sym_arith 0 1 4 4 signal0) 5 = Init 5 \<and>
   fft_truncate1_twiddle sym_arith sym_bfly 0 1 4 64 1 0 0 1 6 signal0 =
     Option.bind
       (fft_radix2_twiddle sym_arith sym_bfly 0 1 2 128 1 0 0 2
         (butterfly_layer sym_bfly 0 1 4 4 64 signal0))
       (fft_truncate1_twiddle sym_arith sym_bfly 4 1 2 128 1 1 0 2 2) \<and>
   val (butterfly_layer sym_bfly 0 1 4 4 64 signal0) 1 = Op Bfly_u [Init 1, Init 5] [1, 4, 64] \<and>
   val (butterfly_layer sym_bfly 0 1 4 4 64 signal0) 5 = Op Bfly_v [Init 1, Init 5] [1, 4, 64] \<and>
   (\<exists>s'. fft_truncate1_twiddle sym_arith sym_bfly 0 1 4 64 1 0 0 1 2 signal0 = Some s') \<and>
   (\<exists>s'. fft_truncate1_twiddle sym_arith sym_bfly 0 1 4 64 1 0 0 1 6 signal0 = Some s')"
proof -
  have own: "own 8 signal0"
    by (simp add: own_def signal0_def upt_conv_Cons)
  have ins: "inside 8 UNIV 0 1 (2 * 2 ^ 2)"
    by (simp add: inside_def)
  have l: "(2::nat) \<le> 2 ^ 2" and m: "(2::nat) ^ 2 < 6 \<and> (6::nat) < 2 * 2 ^ 2" and i: "(1::nat) < 2 ^ 2"
    and e2: "even (2::nat) \<and> 0 < (2::nat)" and e6: "even (6::nat)"
    by simp_all
  note low = fft_truncate1_twiddle_case_split[where N=8 and s=signal0 and istride=1 and ii=0
      and k=2 and A=sym_arith and B=sym_bfly and w=64 and ws=1 and r=0 and c=0 and rs=1
      and trunc=2, OF own zero_less_one ins, THEN conjunct1, THEN mp, OF l]
  note mid = fft_truncate1_twiddle_case_split[where N=8 and s=signal0 and istride=1 and ii=0
      and k=2 and A=sym_arith and B=sym_bfly and w=64 and ws=1 and r=0 and c=0 and rs=1
      and trunc=6, OF own zero_less_one ins, THEN conjunct2, THEN conjunct1, THEN mp, OF m]
  note lowv = low[THEN conjunct2, THEN conjunct2, THEN conjunct2, THEN conjunct2, THEN conjunct1,
      rule_format, OF i]
  note lowr = low[THEN conjunct2, THEN conjunct2, THEN conjunct2, THEN conjunct2, THEN conjunct2,
      THEN mp, OF e2]
  note midv = mid[THEN conjunct2, THEN conjunct1, rule_format, OF i]
  note midr = mid[THEN conjunct2, THEN conjunct2, THEN mp, OF e6]
  have r2: "\<exists>s'. fft_truncate1_twiddle sym_arith sym_bfly 0 1 4 64 1 0 0 1 2 signal0 = Some s'"
    using lowr by auto
  have r6: "\<exists>s'. fft_truncate1_twiddle sym_arith sym_bfly 0 1 4 64 1 0 0 1 6 signal0 = Some s'"
    using midr by auto
  have vals: "fft_truncate1_twiddle sym_arith sym_bfly 0 1 4 64 1 0 0 1 2 signal0 =
     fft_truncate1_twiddle sym_arith sym_bfly 0 1 2 128 1 0 0 2 2
       (add_layer sym_arith 0 1 4 4 signal0) \<and>
   val (add_layer sym_arith 0 1 4 4 signal0) 1 = Op Add [Init 1, Init 5] [5] \<and>
   val (add_layer sym_arith 0 1 4 4 signal0) 5 = Init 5 \<and>
   fft_truncate1_twiddle sym_arith sym_bfly 0 1 4 64 1 0 0 1 6 signal0 =
     Option.bind
       (fft_radix2_twiddle sym_arith sym_bfly 0 1 2 128 1 0 0 2
         (butterfly_layer sym_bfly 0 1 4 4 64 signal0))
       (fft_truncate1_twiddle sym_arith sym_bfly 4 1 2 128 1 1 0 2 2) \<and>
   val (butterfly_layer sym_bfly 0 1 4 4 64 signal0) 1 = Op Bfly_u [Init 1, Init 5] [1, 4, 64] \<and>
   val (butterfly_layer sym_bfly 0 1 4 4 64 signal0) 5 = Op Bfly_v [Init 1, Init 5] [1, 4, 64]"
    using low[THEN conjunct1] lowv mid[THEN conjunct1] midv
    by (simp add: sym_arith_def sym_bfly_def signal0_def val_def)
  from vals r2 r6 show ?thesis
    by blast
qed

theorem fft_truncate1_twiddle_upper_half_frame_witness:
  "\<exists>s'. fft_truncate1_twiddle sym_arith sym_bfly 0 1 4 64 1 0 0 1 2 signal0 = Some s' \<and>
      own 8 s' \<and> slot s' 5 = 5 \<and> buf s' 5 = Init 5 \<and> slot s' 7 = 7 \<and> buf s' 7 = Init 7"
proof -
  have own: "own 8 signal0"
    by (simp add: own_def signal0_def upt_conv_Cons)
  have ins: "inside 8 UNIV 0 1 (2 * 2 ^ 2)"
    by (simp add: inside_def)
  have "\<exists>s'. fft_truncate1_twiddle sym_arith sym_bfly 0 1 (2 ^ 2) 64 1 0 0 1 2 signal0 = Some s' \<and>
      own 8 s' \<and>
      (\<forall>i<2 ^ 2. slot s' (0 + (i + 2 ^ 2) * 1) = slot signal0 (0 + (i + 2 ^ 2) * 1) \<and>
                 buf s' (slot signal0 (0 + (i + 2 ^ 2) * 1)) = buf signal0 (slot signal0 (0 + (i + 2 ^ 2) * 1))) \<and>
      (\<forall>j. j \<notin> strided 0 1 (2 ^ 2) \<longrightarrow> slot s' j = slot signal0 j) \<and>
      (\<forall>j<8. j \<notin> strided 0 1 (2 ^ 2) \<longrightarrow> val s' j = val signal0 j)"
    by (rule fft_truncate1_twiddle_upper_half_frame[OF own _ ins]) simp_all
  then obtain s' where s': "fft_truncate1_twiddle sym_arith sym_bfly 0 1 (2 ^ 2) 64 1 0 0 1 2 signal0 = Some s'"
    "own 8 s'"
    and up: "\<And>i. i < 2 ^ 2 \<Longrightarrow> slot s' (0 + (i + 2 ^ 2) * 1) = slot signal0 (0 + (i + 2 ^ 2) * 1) \<and>
                 buf s' (slot signal0 (0 + (i + 2 ^ 2) * 1)) = buf signal0 (slot signal0 (0 + (i + 2 ^ 2) * 1))"
    by blast
  show ?thesis
    using s' up[of 1] up[of 3] by (simp add: signal0_def)
qed

lemma int_arith_contract: "arith_contract (int_arith W) id"
  by (simp add: arith_contract_def int_arith_def modulus_def)

lemma two_power_minus_one: "(2::int) ^ m mod (2 ^ m + 1) = (- 1) mod (2 ^ m + 1)"
proof -
  have "(2::int) ^ m = - 1 + (2 ^ m + 1)"
    by simp
  then have "(2::int) ^ m mod (2 ^ m + 1) = (- 1 + (2 ^ m + 1)) mod (2 ^ m + 1)"
    by simp
  then show ?thesis
    by (simp only: mod_add_self2)
qed

lemma rotate_small:
  fixes u u1 c p :: int
  assumes "u mod p = (c * 2 ^ (x * W)) mod p" "u1 mod p = (u * 2 ^ d) mod p" "x * W + d = b"
  shows "u1 mod p = (2 ^ b * c) mod p"
proof -
  have "u1 mod p = ((u mod p) * 2 ^ d) mod p"
    using assms(2) by (simp add: mod_mult_left_eq)
  also have "\<dots> = ((c * 2 ^ (x * W)) * 2 ^ d) mod p"
    unfolding assms(1) by (simp add: mod_mult_left_eq)
  also have "(c * 2 ^ (x * W)) * 2 ^ d = 2 ^ b * c"
    using assms(3) by (simp add: power_add mult_ac flip: assms(3))
  finally show ?thesis .
qed

lemma rotate_negate:
  fixes u1 u2 c :: int
  assumes "u2 mod (2 ^ m + 1) = (- u1) mod (2 ^ m + 1)"
    "u1 mod (2 ^ m + 1) = (2 ^ b' * c) mod (2 ^ m + 1)" "b = b' + m"
  shows "u2 mod (2 ^ m + 1) = (2 ^ b * c) mod (2 ^ m + 1)"
proof -
  let ?p = "(2::int) ^ m + 1"
  have "(2 ^ b * c) mod ?p = (2 ^ m * (2 ^ b' * c)) mod ?p"
    by (simp add: assms(3) power_add mult_ac)
  also have "\<dots> = ((2 ^ m mod ?p) * (2 ^ b' * c)) mod ?p"
    by (simp add: mod_mult_left_eq)
  also have "\<dots> = ((- 1) * (2 ^ b' * c)) mod ?p"
    unfolding two_power_minus_one by (simp add: mod_mult_left_eq)
  also have "\<dots> = (- (2 ^ b' * c)) mod ?p"
    by simp
  also have "\<dots> = (- u1) mod ?p"
    using assms(2) by (metis mod_minus_cong)
  finally show ?thesis
    using assms(1) by simp
qed

lemma rotate_any:
  fixes c :: int
  assumes W: "0 < W" and b: "b < 2 * (limbs * W)"
    and u: "x < limbs \<Longrightarrow> u mod (2 ^ (limbs * W) + 1) = (c * 2 ^ (x * W)) mod (2 ^ (limbs * W) + 1)"
    and u1: "d < W \<Longrightarrow> u1 mod (2 ^ (limbs * W) + 1) = (u * 2 ^ d) mod (2 ^ (limbs * W) + 1)"
    and u2: "u2 mod (2 ^ (limbs * W) + 1) = (- u1) mod (2 ^ (limbs * W) + 1)"
    and x: "x = (if limbs * W \<le> b then b - limbs * W else b) div W"
    and d: "d = (if limbs * W \<le> b then b - limbs * W else b) mod W"
  shows "(if limbs * W \<le> b then u2 else u1) mod (2 ^ (limbs * W) + 1) = (2 ^ b * c) mod (2 ^ (limbs * W) + 1)"
proof -
  let ?b' = "if limbs * W \<le> b then b - limbs * W else b"
  have b': "?b' < limbs * W"
    using b by auto
  have xl: "x < limbs"
    unfolding x using b' W by (simp add: less_mult_imp_div_less)
  have dl: "d < W"
    unfolding d using W by simp
  have sum: "x * W + d = ?b'"
    unfolding x d by simp
  have small: "u1 mod (2 ^ (limbs * W) + 1) = (2 ^ ?b' * c) mod (2 ^ (limbs * W) + 1)"
    using u[OF xl] u1[OF dl] sum by (rule rotate_small)
  show ?thesis
  proof (cases "limbs * W \<le> b")
    case True
    then have "b = ?b' + limbs * W"
      by simp
    with u2 small have "u2 mod (2 ^ (limbs * W) + 1) = (2 ^ b * c) mod (2 ^ (limbs * W) + 1)"
      by (rule rotate_negate)
    with True show ?thesis
      by simp
  next
    case False
    with small show ?thesis
      by simp
  qed
qed

text \<open>
  Claim C2. With primitives that meet their contracts and rotations \<open>b1, b2 < 2 * nw\<close>,
  \<^verbatim>\<open>fft_butterfly_twiddle\<close> writes \<open>u = 2 ^ b1 * (s + t)\<close> and \<open>v = 2 ^ b2 * (s - t)\<close>
  modulo \<open>2 ^ nw + 1\<close>; and a rotation by \<open>b \<ge> nw\<close> is the rotation by \<open>b - nw\<close>
  followed by \<^verbatim>\<open>mpn_neg_n\<close>.
\<close>

theorem fft_butterfly_twiddle_correct:
  assumes "arith_contract A V" "0 < FLINT_BITS A"
    "b1 < 2 * (limbs * FLINT_BITS A)" "b2 < 2 * (limbs * FLINT_BITS A)"
  shows "V (fst (fft_butterfly_twiddle A s t limbs b1 b2)) mod modulus A limbs =
           (2 ^ b1 * (V s + V t)) mod modulus A limbs \<and>
         V (snd (fft_butterfly_twiddle A s t limbs b1 b2)) mod modulus A limbs =
           (2 ^ b2 * (V s - V t)) mod modulus A limbs \<and>
         (limbs * FLINT_BITS A \<le> b1 \<longrightarrow>
            fst (fft_butterfly_twiddle A s t limbs b1 b2) =
              mpn_neg_n A (fst (fft_butterfly_twiddle A s t limbs (b1 - limbs * FLINT_BITS A) b2))
                (limbs + 1)) \<and>
         (limbs * FLINT_BITS A \<le> b2 \<longrightarrow>
            snd (fft_butterfly_twiddle A s t limbs b1 b2) =
              mpn_neg_n A (snd (fft_butterfly_twiddle A s t limbs b1 (b2 - limbs * FLINT_BITS A)))
                (limbs + 1))"
proof (intro conjI impI)
  let ?W = "FLINT_BITS A"
  let ?nw = "limbs * ?W"
  let ?b1 = "if ?nw \<le> b1 then b1 - ?nw else b1"
  let ?b2 = "if ?nw \<le> b2 then b2 - ?nw else b2"
  let ?x = "?b1 div ?W" and ?y = "?b2 div ?W"
  let ?uv = "butterfly_lshB A s t limbs ?x ?y"
  let ?u1 = "mpn_mul_2expmod_2expp1 A (fst ?uv) limbs (?b1 mod ?W)"
  let ?v1 = "mpn_mul_2expmod_2expp1 A (snd ?uv) limbs (?b2 mod ?W)"
  have fst_eq: "fst (fft_butterfly_twiddle A s t limbs b1 b2) =
      (if ?nw \<le> b1 then mpn_neg_n A ?u1 (limbs + 1) else ?u1)"
    by (simp add: fft_butterfly_twiddle_def Let_def case_prod_beta)
  have snd_eq: "snd (fft_butterfly_twiddle A s t limbs b1 b2) =
      (if ?nw \<le> b2 then mpn_neg_n A ?v1 (limbs + 1) else ?v1)"
    by (simp add: fft_butterfly_twiddle_def Let_def case_prod_beta)
  have b1': "?b1 < ?nw" and b2': "?b2 < ?nw"
    using assms(3,4) by auto
  have xy: "?x < limbs" "?y < limbs"
    using b1' b2' assms(2) by (simp_all add: less_mult_imp_div_less)
  have C: "V (fst ?uv) mod modulus A limbs = ((V s + V t) * 2 ^ (?x * ?W)) mod modulus A limbs"
    "V (snd ?uv) mod modulus A limbs = ((V s - V t) * 2 ^ (?y * ?W)) mod modulus A limbs"
    using assms(1) xy unfolding arith_contract_def by blast+
  have M: "V (mpn_mul_2expmod_2expp1 A a limbs d) mod modulus A limbs = (V a * 2 ^ d) mod modulus A limbs"
    if "d < ?W" for a d
    using assms(1) that unfolding arith_contract_def by blast
  have Ng: "V (mpn_neg_n A a (limbs + 1)) mod modulus A limbs = (- V a) mod modulus A limbs" for a
    using assms(1) unfolding arith_contract_def by blast
  have C': "V (fst ?uv) mod (2 ^ ?nw + 1) = ((V s + V t) * 2 ^ (?x * ?W)) mod (2 ^ ?nw + 1)"
    "V (snd ?uv) mod (2 ^ ?nw + 1) = ((V s - V t) * 2 ^ (?y * ?W)) mod (2 ^ ?nw + 1)"
    using C unfolding modulus_def .
  have M': "V (mpn_mul_2expmod_2expp1 A a limbs d) mod (2 ^ ?nw + 1) = (V a * 2 ^ d) mod (2 ^ ?nw + 1)"
    if "d < ?W" for a d
    using M[OF that] unfolding modulus_def .
  have Ng': "V (mpn_neg_n A a (limbs + 1)) mod (2 ^ ?nw + 1) = (- V a) mod (2 ^ ?nw + 1)" for a
    using Ng unfolding modulus_def .
  have R1: "(if ?nw \<le> b1 then V (mpn_neg_n A ?u1 (limbs + 1)) else V ?u1) mod (2 ^ ?nw + 1) =
      (2 ^ b1 * (V s + V t)) mod (2 ^ ?nw + 1)"
    by (rule rotate_any[where x="?x" and d="?b1 mod ?W" and u="V (fst ?uv)"])
      (rule assms(2) assms(3) C'(1) M' Ng' refl | assumption)+
  have R2: "(if ?nw \<le> b2 then V (mpn_neg_n A ?v1 (limbs + 1)) else V ?v1) mod (2 ^ ?nw + 1) =
      (2 ^ b2 * (V s - V t)) mod (2 ^ ?nw + 1)"
    by (rule rotate_any[where x="?y" and d="?b2 mod ?W" and u="V (snd ?uv)"])
      (rule assms(2) assms(4) C'(2) M' Ng' refl | assumption)+
  show "V (fst (fft_butterfly_twiddle A s t limbs b1 b2)) mod modulus A limbs =
           (2 ^ b1 * (V s + V t)) mod modulus A limbs"
  proof (cases "?nw \<le> b1")
    case True
    with R1 show ?thesis
      unfolding fst_eq modulus_def by (simp only: if_True)
  next
    case False
    with R1 show ?thesis
      unfolding fst_eq modulus_def by (simp only: if_False)
  qed
  show "V (snd (fft_butterfly_twiddle A s t limbs b1 b2)) mod modulus A limbs =
           (2 ^ b2 * (V s - V t)) mod modulus A limbs"
  proof (cases "?nw \<le> b2")
    case True
    with R2 show ?thesis
      unfolding snd_eq modulus_def by (simp only: if_True)
  next
    case False
    with R2 show ?thesis
      unfolding snd_eq modulus_def by (simp only: if_False)
  qed
  {
    assume ge: "?nw \<le> b1"
    then have "\<not> ?nw \<le> b1 - ?nw"
      using assms(3) by simp
    with ge show "fst (fft_butterfly_twiddle A s t limbs b1 b2) =
        mpn_neg_n A (fst (fft_butterfly_twiddle A s t limbs (b1 - ?nw) b2)) (limbs + 1)"
      by (simp add: fft_butterfly_twiddle_def Let_def case_prod_beta)
  }
  {
    assume ge: "?nw \<le> b2"
    then have "\<not> ?nw \<le> b2 - ?nw"
      using assms(4) by simp
    with ge show "snd (fft_butterfly_twiddle A s t limbs b1 b2) =
        mpn_neg_n A (snd (fft_butterfly_twiddle A s t limbs b1 (b2 - ?nw))) (limbs + 1)"
      by (simp add: fft_butterfly_twiddle_def Let_def case_prod_beta)
  }
qed

theorem fft_butterfly_twiddle_correct_witness:
  "fst (fft_butterfly_twiddle (int_arith 8) 3 5 1 10 3) mod 257 = 225 \<and>
   snd (fft_butterfly_twiddle (int_arith 8) 3 5 1 10 3) mod 257 = 241 \<and>
   fst (fft_butterfly_twiddle (int_arith 8) 3 5 1 10 3) =
     mpn_neg_n (int_arith 8) (fst (fft_butterfly_twiddle (int_arith 8) 3 5 1 2 3)) 2"
proof -
  have W: "0 < FLINT_BITS (int_arith 8)"
    and b1: "10 < 2 * (1 * FLINT_BITS (int_arith 8))"
    and b2: "3 < 2 * (1 * FLINT_BITS (int_arith 8))"
    and ge: "1 * FLINT_BITS (int_arith 8) \<le> 10"
    by (simp_all add: int_arith_def)
  note th = fft_butterfly_twiddle_correct[OF int_arith_contract W b1 b2, of 3 5]
  have m: "modulus (int_arith 8) 1 = 257"
    by (simp add: modulus_def int_arith_def)
  have d: "10 - 1 * FLINT_BITS (int_arith 8) = 2" "1 + 1 = (2::nat)"
    by (simp_all add: int_arith_def)
  show ?thesis
    using th[THEN conjunct1] th[THEN conjunct2, THEN conjunct1]
      th[THEN conjunct2, THEN conjunct2, THEN conjunct1, THEN mp, OF ge]
    unfolding m d by simp
qed

lemma n_revbin_less: "n_revbin j d < 2 ^ d"
proof (induction d arbitrary: j)
  case 0
  show ?case by simp
next
  case (Suc d)
  have a: "j mod 2 * 2 ^ d \<le> 1 * 2 ^ d"
    by (rule mult_le_mono1) simp
  have b: "n_revbin (j div 2) d < 2 ^ d"
    by (rule Suc)
  show ?case
    unfolding n_revbin.simps power_Suc using a b by linarith
qed

lemma depth_loop_pow2: "d \<le> k \<Longrightarrow> depth_loop (2 ^ k) d = k"
proof (induction "k - d" arbitrary: d)
  case 0
  then have "d = k" by simp
  then show ?case
    by (subst depth_loop.simps) simp
next
  case (Suc m)
  then have lt: "d < k" by simp
  then have "(2::nat) ^ d < 2 ^ k"
    by simp
  moreover have "depth_loop (2 ^ k) (Suc d) = k"
    using Suc lt by (intro Suc.hyps(1)) simp_all
  ultimately show ?case
    by (subst depth_loop.simps) simp
qed

lemma fold_upt_Suc_shift: "fold f [0..<Suc m] s = fold (\<lambda>k. f (Suc k)) [0..<m] (f 0 s)"
proof -
  have "[0..<Suc m] = 0 # map Suc [0..<m]"
    by (simp add: upt_conv_Cons map_Suc_upt del: upt_Suc)
  then show ?thesis
    by (simp add: fold_map comp_def del: upt_Suc)
qed

lemma for_step_fold:
  assumes "0 < step"
  shows "\<exists>cnt. for_step body j bound step s =
           (j + cnt * step, fold (\<lambda>k. body (j + k * step)) [0..<cnt] s) \<and>
         (\<forall>k<cnt. j + k * step < bound) \<and> bound \<le> j + cnt * step"
  using assms
proof (induction body j bound step s rule: for_step.induct)
  case (1 body j bound step s)
  show ?case
  proof (cases "j < bound")
    case True
    from 1 True obtain cnt where
      run: "for_step body (j + step) bound step (body j s) =
         (j + step + cnt * step, fold (\<lambda>k. body (j + step + k * step)) [0..<cnt] (body j s))"
      and lt: "\<forall>k<cnt. j + step + k * step < bound" and ge: "bound \<le> j + step + cnt * step"
      by blast
    have "for_step body j bound step s =
        (j + Suc cnt * step, fold (\<lambda>k. body (j + k * step)) [0..<Suc cnt] s)"
      using True 1(2) run
      by (subst for_step.simps, subst fold_upt_Suc_shift) (simp add: add.assoc)
    moreover have "\<forall>k<Suc cnt. j + k * step < bound"
    proof (intro allI impI)
      fix k assume "k < Suc cnt"
      then show "j + k * step < bound"
        using lt[rule_format, of "k - 1"] True by (cases k) (simp_all add: add.assoc)
    qed
    moreover have "bound \<le> j + Suc cnt * step"
      using ge by (simp add: add.assoc)
    ultimately show ?thesis
      by blast
  next
    case False
    then have "for_step body j bound step s = (j + 0 * step, fold (\<lambda>k. body (j + k * step)) [0..<0] s)"
      by (subst for_step.simps) simp
    with False show ?thesis
      by (intro exI[of _ 0]) simp
  qed
qed

lemma for_step_frame:
  assumes "\<And>j s. j < bound \<Longrightarrow> own N s \<Longrightarrow> frame N F s (body j s)" "own N s" "0 < step"
  shows "frame N F s (snd (for_step body j bound step s))"
proof -
  obtain cnt where run: "for_step body j bound step s =
           (j + cnt * step, fold (\<lambda>k. body (j + k * step)) [0..<cnt] s)"
    and lt: "\<forall>k<cnt. j + k * step < bound"
    using for_step_fold[OF assms(3), of body j bound s] by blast
  have "frame N F s (fold (\<lambda>k. body (j + k * step)) [0..<cnt] s)"
    using assms(1,2) lt by (intro fold_frame) simp_all
  then show ?thesis
    by (simp add: run)
qed

lemma for_step_fst:
  "fst (for_step body j bound step s) = fst (for_step body' j bound step s')"
proof (cases "0 < step")
  case True
  obtain cnt where a: "fst (for_step body j bound step s) = j + cnt * step"
    "\<forall>k<cnt. j + k * step < bound" "bound \<le> j + cnt * step"
    using for_step_fold[OF True, of body j bound s] by force
  obtain cnt' where b: "fst (for_step body' j bound step s') = j + cnt' * step"
    "\<forall>k<cnt'. j + k * step < bound" "bound \<le> j + cnt' * step"
    using for_step_fold[OF True, of body' j bound s'] by force
  have "cnt = cnt'"
  proof (rule ccontr)
    assume "cnt \<noteq> cnt'"
    then consider "cnt < cnt'" | "cnt' < cnt"
      by linarith
    then show False
      using a(2,3) b(2,3) by cases force+
  qed
  with a b show ?thesis
    by simp
next
  case False
  then show ?thesis
    by (subst (1 2) for_step.simps) simp
qed

lemma for_step_sim:
  assumes "\<And>j s s2. j < bound \<Longrightarrow> sim N R s s2 \<Longrightarrow> sim N R (body j s) (body j s2)"
    "sim N R s s2" "0 < step"
  shows "sim N R (snd (for_step body j bound step s)) (snd (for_step body j bound step s2))"
proof -
  obtain cnt where run: "for_step body j bound step s =
           (j + cnt * step, fold (\<lambda>k. body (j + k * step)) [0..<cnt] s)"
    and lt: "\<forall>k<cnt. j + k * step < bound" and ge: "bound \<le> j + cnt * step"
    using for_step_fold[OF assms(3), of body j bound s] by blast
  obtain cnt' where run': "for_step body j bound step s2 =
           (j + cnt' * step, fold (\<lambda>k. body (j + k * step)) [0..<cnt'] s2)"
    using for_step_fold[OF assms(3), of body j bound s2] by blast
  have "fst (for_step body j bound step s) = fst (for_step body j bound step s2)"
    by (rule for_step_fst)
  then have "cnt = cnt'"
    using assms(3) by (simp add: run run')
  moreover have "sim N R (fold (\<lambda>k. body (j + k * step)) [0..<cnt] s)
      (fold (\<lambda>k. body (j + k * step)) [0..<cnt] s2)"
    using assms(1,2) lt by (intro fold_sim) simp_all
  ultimately show ?thesis
    by (simp add: run run')
qed

lemma revbin_step_frame:
  assumes "own N s" "inside N F ii istride (2 ^ depth)" "j < 2 ^ depth"
  shows "frame N F s (revbin_step ii istride depth j s)"
  unfolding revbin_step_def Let_def
  using assms insideD[OF assms(2), of j] insideD[OF assms(2) n_revbin_less[of j depth]]
  by (simp add: frame_refl swap_ii_frame)

lemma revbin_step_sim:
  assumes "sim N R s s2" "inside N R ii istride (2 ^ depth)" "j < 2 ^ depth"
  shows "sim N R (revbin_step ii istride depth j s) (revbin_step ii istride depth j s2)"
  unfolding revbin_step_def Let_def
  using assms insideD[OF assms(2), of j] insideD[OF assms(2) n_revbin_less[of j depth]]
  by (simp add: swap_ii_sim)

lemma revbin_reorder_frame:
  assumes "own N s" "inside N F ii istride (2 ^ depth)"
  shows "frame N F s (revbin_reorder ii istride (2 ^ depth) depth s)"
  unfolding revbin_reorder_def
  using assms by (intro fold_frame) (simp_all add: revbin_step_frame)

lemma revbin_reorder_sim:
  assumes "sim N R s s2" "inside N R ii istride (2 ^ depth)"
  shows "sim N R (revbin_reorder ii istride (2 ^ depth) depth s)
    (revbin_reorder ii istride (2 ^ depth) depth s2)"
  unfolding revbin_reorder_def
  using assms by (intro fold_sim) (simp_all add: revbin_step_sim)

lemma place_sqrt2_sim_same:
  assumes "sim N R s s2" "a < N" "b < N" "a \<noteq> b"
  shows "sim N R (place_sqrt2 a b uvt s) (place_sqrt2 a b uvt s2)"
  using place_sqrt2_sim[OF assms, of "fst uvt" "fst (snd uvt)" "snd (snd uvt)" "snd (snd uvt)"]
  by simp

lemma write_slot_temp_sim_same:
  assumes "sim N R s s2" "b < N"
  shows "sim N R (write_slot_temp b xt s) (write_slot_temp b xt s2)"
  using write_slot_temp_sim[OF assms, of "fst xt" "snd xt" "snd xt"] by simp

lemma odd_butterfly_step_frame:
  assumes "own N s" "0 < n" "j < 2 * n" "4 * n \<le> N" "{..<4 * n} \<subseteq> F"
  shows "frame N F s (odd_butterfly_step B n w limbs j s)"
proof -
  have "j < N" "2 * n + j < N" "j \<noteq> 2 * n + j" "j \<in> F" "2 * n + j \<in> F"
    using assms by auto
  then show ?thesis
    unfolding odd_butterfly_step_def using assms(1)
    by (simp add: place_frame place_sqrt2_frame)
qed

lemma even_butterfly_step_frame:
  assumes "own N s" "0 < n" "j < 2 * n" "4 * n \<le> N" "{..<4 * n} \<subseteq> F"
  shows "frame N F s (even_butterfly_step B n w limbs j s)"
proof -
  have "j < N" "2 * n + j < N" "j \<noteq> 2 * n + j" "j \<in> F" "2 * n + j \<in> F"
    using assms by auto
  then show ?thesis
    unfolding even_butterfly_step_def using assms(1) by (simp add: place_frame)
qed

lemma odd_adjust_step_frame:
  assumes "own N s" "j < 2 * n" "4 * n \<le> N" "{..<4 * n} \<subseteq> F"
  shows "frame N F s (odd_adjust_step B n w limbs i j s)"
proof -
  have "j + 2 * n < N" "j + 2 * n \<in> F"
    using assms by auto
  then show ?thesis
    unfolding odd_adjust_step_def using assms(1)
    by (simp add: write_slot_frame write_slot_temp_frame)
qed

lemma even_adjust_step_frame:
  assumes "own N s" "j < 2 * n" "4 * n \<le> N" "{..<4 * n} \<subseteq> F"
  shows "frame N F s (even_adjust_step B n w limbs j s)"
proof -
  have "j + 2 * n < N" "j + 2 * n \<in> F"
    using assms by auto
  then show ?thesis
    unfolding even_adjust_step_def using assms(1) by (simp add: write_slot_frame)
qed

lemma odd_butterfly_step_sim:
  assumes "sim N R s s2" "0 < n" "j < 2 * n" "4 * n \<le> N" "{..<4 * n} \<subseteq> R"
  shows "sim N R (odd_butterfly_step B n w limbs j s) (odd_butterfly_step B n w limbs j s2)"
proof -
  have a: "j < N" "2 * n + j < N" "j \<noteq> 2 * n + j" "j \<in> R" "2 * n + j \<in> R"
    using assms by auto
  then have "val s j = val s2 j" "val s (2 * n + j) = val s2 (2 * n + j)"
    using assms(1) by (simp_all add: sim_val)
  then show ?thesis
    unfolding odd_butterfly_step_def using assms(1) a
    by (simp add: place_sim place_sqrt2_sim_same)
qed

lemma even_butterfly_step_sim:
  assumes "sim N R s s2" "0 < n" "j < 2 * n" "4 * n \<le> N" "{..<4 * n} \<subseteq> R"
  shows "sim N R (even_butterfly_step B n w limbs j s) (even_butterfly_step B n w limbs j s2)"
proof -
  have a: "j < N" "2 * n + j < N" "j \<noteq> 2 * n + j" "j \<in> R" "2 * n + j \<in> R"
    using assms by auto
  then have "val s j = val s2 j" "val s (2 * n + j) = val s2 (2 * n + j)"
    using assms(1) by (simp_all add: sim_val)
  then show ?thesis
    unfolding even_butterfly_step_def using assms(1) a by (simp add: place_sim)
qed

lemma odd_adjust_step_sim:
  assumes "sim N R s s2" "j < 2 * n" "4 * n \<le> N" "{..<4 * n} \<subseteq> R"
  shows "sim N R (odd_adjust_step B n w limbs i j s) (odd_adjust_step B n w limbs i j s2)"
proof -
  have a: "j < N" "j + 2 * n < N" "j \<in> R"
    using assms by auto
  then have "val s j = val s2 j"
    using assms(1) by (simp add: sim_val)
  then show ?thesis
    unfolding odd_adjust_step_def using assms(1) a
    by (simp add: write_slot_sim write_slot_temp_sim_same)
qed

lemma even_adjust_step_sim:
  assumes "sim N R s s2" "j < 2 * n" "4 * n \<le> N" "{..<4 * n} \<subseteq> R"
  shows "sim N R (even_adjust_step B n w limbs j s) (even_adjust_step B n w limbs j s2)"
proof -
  have a: "j < N" "j + 2 * n < N" "j \<in> R"
    using assms by auto
  then have "val s j = val s2 j"
    using assms(1) by (simp add: sim_val)
  then show ?thesis
    unfolding even_adjust_step_def using assms(1) a by (simp add: write_slot_sim)
qed

lemma sqrt2_layer_frame:
  assumes "own N s" "0 < n" "0 < n1" "trunc \<le> 4 * n" "4 * n \<le> N" "{..<4 * n} \<subseteq> F"
  shows "frame N F s (sqrt2_layer B n w n1 trunc limbs i s)"
proof (cases "odd w")
  case True
  let ?r1 = "for_step (odd_butterfly_step B n w limbs) i (trunc - 2 * n) n1 s"
  have f1: "frame N F s (snd ?r1)"
    using assms by (intro for_step_frame odd_butterfly_step_frame) simp_all
  have "frame N F (snd ?r1) (snd (for_step (odd_adjust_step B n w limbs i) (fst ?r1) (2 * n) n1 (snd ?r1)))"
    using assms frame_own[OF f1] by (intro for_step_frame odd_adjust_step_frame) simp_all
  with f1 True show ?thesis
    by (simp add: sqrt2_layer_def case_prod_beta frame_trans[where ?s1.0="snd ?r1"])
next
  case False
  let ?r1 = "for_step (even_butterfly_step B n w limbs) i (trunc - 2 * n) n1 s"
  have f1: "frame N F s (snd ?r1)"
    using assms by (intro for_step_frame even_butterfly_step_frame) simp_all
  have "frame N F (snd ?r1) (snd (for_step (even_adjust_step B n w limbs) (fst ?r1) (2 * n) n1 (snd ?r1)))"
    using assms frame_own[OF f1] by (intro for_step_frame even_adjust_step_frame) simp_all
  with f1 False show ?thesis
    by (simp add: sqrt2_layer_def case_prod_beta frame_trans[where ?s1.0="snd ?r1"])
qed

lemma sqrt2_layer_sim:
  assumes "sim N R s s2" "0 < n" "0 < n1" "trunc \<le> 4 * n" "4 * n \<le> N" "{..<4 * n} \<subseteq> R"
  shows "sim N R (sqrt2_layer B n w n1 trunc limbs i s) (sqrt2_layer B n w n1 trunc limbs i s2)"
proof (cases "odd w")
  case True
  let ?r1 = "for_step (odd_butterfly_step B n w limbs) i (trunc - 2 * n) n1 s"
  let ?r2 = "for_step (odd_butterfly_step B n w limbs) i (trunc - 2 * n) n1 s2"
  have f1: "sim N R (snd ?r1) (snd ?r2)"
    using assms by (intro for_step_sim odd_butterfly_step_sim) simp_all
  have j: "fst ?r1 = fst ?r2"
    by (rule for_step_fst)
  have "sim N R (snd (for_step (odd_adjust_step B n w limbs i) (fst ?r1) (2 * n) n1 (snd ?r1)))
      (snd (for_step (odd_adjust_step B n w limbs i) (fst ?r1) (2 * n) n1 (snd ?r2)))"
  proof (rule for_step_sim[OF _ f1 assms(3)])
    fix j sa s2a assume "j < 2 * n" "sim N R sa (s2a::'a state)"
    then show "sim N R (odd_adjust_step B n w limbs i j sa) (odd_adjust_step B n w limbs i j s2a)"
      using assms(5,6) by (intro odd_adjust_step_sim) simp_all
  qed
  with True j show ?thesis
    by (simp add: sqrt2_layer_def case_prod_beta)
next
  case False
  let ?r1 = "for_step (even_butterfly_step B n w limbs) i (trunc - 2 * n) n1 s"
  let ?r2 = "for_step (even_butterfly_step B n w limbs) i (trunc - 2 * n) n1 s2"
  have f1: "sim N R (snd ?r1) (snd ?r2)"
    using assms by (intro for_step_sim even_butterfly_step_sim) simp_all
  have j: "fst ?r1 = fst ?r2"
    by (rule for_step_fst)
  have "sim N R (snd (for_step (even_adjust_step B n w limbs) (fst ?r1) (2 * n) n1 (snd ?r1)))
      (snd (for_step (even_adjust_step B n w limbs) (fst ?r1) (2 * n) n1 (snd ?r2)))"
  proof (rule for_step_sim[OF _ f1 assms(3)])
    fix j sa s2a assume "j < 2 * n" "sim N R sa (s2a::'a state)"
    then show "sim N R (even_adjust_step B n w limbs j sa) (even_adjust_step B n w limbs j s2a)"
      using assms(5,6) by (intro even_adjust_step_sim) simp_all
  qed
  with False j show ?thesis
    by (simp add: sqrt2_layer_def case_prod_beta)
qed

lemma for_each_frame:
  assumes "\<And>i s. i \<in> set xs \<Longrightarrow> own N s \<Longrightarrow> returns (f i s) (frame N F s)" "own N s"
  shows "returns (for_each f xs s) (frame N F s)"
  using assms
proof (induction xs arbitrary: s)
  case Nil
  then show ?case
    by (simp add: returns_Some frame_refl)
next
  case (Cons x xs)
  have "returns (f x s) (frame N F s)"
    using Cons.prems by simp
  then have "returns (Option.bind (f x s) (for_each f xs)) (frame N F s)"
  proof (rule returns_bind)
    fix s1 assume f1: "frame N F s s1"
    show "returns (for_each f xs s1) (frame N F s)"
      by (rule returns_mono[OF Cons.IH[OF _ frame_own[OF f1]]])
        (use Cons.prems(1) in simp, rule frame_trans[OF f1])
  qed
  then show ?case
    by simp
qed

lemma for_each_sim:
  assumes "\<And>i s s2. i \<in> set xs \<Longrightarrow> sim N R s s2 \<Longrightarrow> returns2 (f i s) (f i s2) (sim N R)"
    "sim N R s s2"
  shows "returns2 (for_each f xs s) (for_each f xs s2) (sim N R)"
  using assms
proof (induction xs arbitrary: s s2)
  case Nil
  then show ?case
    by (simp add: returns2_Some)
next
  case (Cons x xs)
  have "returns2 (f x s) (f x s2) (sim N R)"
    using Cons.prems by simp
  then have "returns2 (Option.bind (f x s) (for_each f xs)) (Option.bind (f x s2) (for_each f xs)) (sim N R)"
    by (rule returns2_bind) (use Cons in simp)
  then show ?case
    by simp
qed

lemma mfa_params_facts:
  assumes "mfa_params b c n n1 trunc"
  shows "n1 = 2 ^ Suc b" "2 * n = n1 * 2 ^ Suc c" "(2 * n) div n1 = 2 ^ Suc c" "0 < n" "0 < n1"
    "trunc \<le> 4 * n" "even ((trunc - 2 * n) div n1)" "0 < (trunc - 2 * n) div n1"
    "(trunc - 2 * n) div n1 \<le> 2 ^ Suc c"
proof -
  show n1: "n1 = 2 ^ Suc b" and le: "trunc \<le> 4 * n"
    using assms by (simp_all add: mfa_params_def)
  have n: "n = 2 ^ (b + Suc c)"
    using assms by (simp add: mfa_params_def)
  show n12: "2 * n = n1 * 2 ^ Suc c"
    by (simp add: n n1 power_add)
  show "0 < n" "0 < n1"
    by (simp_all add: n n1)
  then show "(2 * n) div n1 = 2 ^ Suc c"
    by (simp add: n12)
  obtain q where q: "trunc = 2 * n1 * q"
    using assms by (auto simp: mfa_params_def elim: dvdE)
  have gt: "2 * n < trunc"
    using assms by (simp add: mfa_params_def)
  have "trunc - 2 * n = n1 * (2 * q) - n1 * (2 * 2 ^ c)"
    unfolding q n12 by (simp add: mult_ac)
  then have diff: "trunc - 2 * n = n1 * (2 * (q - 2 ^ c))"
    by (simp add: diff_mult_distrib2)
  have t2: "(trunc - 2 * n) div n1 = 2 * (q - 2 ^ c)"
    unfolding diff using \<open>0 < n1\<close> by simp
  show "even ((trunc - 2 * n) div n1)"
    by (simp add: t2)
  show "0 < (trunc - 2 * n) div n1"
    using gt diff t2 by (cases "q - 2 ^ c = 0") simp_all
  have "n1 * ((trunc - 2 * n) div n1) = trunc - 2 * n"
    unfolding t2 by (simp only: diff)
  also have "\<dots> \<le> 2 * n"
    using le by simp
  also have "2 * n = n1 * 2 ^ Suc c"
    by (rule n12)
  finally show "(trunc - 2 * n) div n1 \<le> 2 ^ Suc c"
    using \<open>0 < n1\<close> by simp
qed

lemma column_inside:
  assumes "2 * n = n1 * n2" "i < n1" "base + 2 * n \<le> N" "{base..<base + 2 * n} \<subseteq> F"
  shows "inside N F (base + i) n1 n2"
  unfolding inside_def
proof (intro allI impI)
  fix k assume "k < n2"
  then have "Suc k * n1 \<le> n2 * n1"
    by (intro mult_le_mono1) simp
  then have "i + k * n1 < 2 * n"
    using assms(1,2) by (simp add: mult.commute)
  then show "base + i + k * n1 < N \<and> base + i + k * n1 \<in> F"
    using assms(3,4) by auto
qed

lemma row_inside:
  assumes "2 * n = n1 * n2" "i < n2" "base + 2 * n \<le> N" "{base..<base + 2 * n} \<subseteq> F"
  shows "inside N F (base + i * n1) 1 n1"
  unfolding inside_def
proof (intro allI impI)
  fix k assume "k < n1"
  have "Suc i * n1 \<le> n2 * n1"
    using assms(2) by (intro mult_le_mono1) simp
  then have "i * n1 + k < 2 * n"
    using assms(1) \<open>k < n1\<close> by (simp add: mult.commute)
  then show "base + i * n1 + k * 1 < N \<and> base + i * n1 + k * 1 \<in> F"
    using assms(3,4) by auto
qed

lemma column_left_frame:
  assumes "own N s" "n1 = 2 ^ Suc b" "2 * n = n1 * 2 ^ Suc c" "trunc \<le> 4 * n" "4 * n \<le> N"
    "{..<4 * n} \<subseteq> F" "i < n1"
  shows "returns (column_left A B n w n1 (2 ^ Suc c) trunc limbs (Suc c) i s) (frame N F s)"
proof -
  have pos: "0 < n" "0 < n1"
    using assms(2,3) by (cases n; simp)+
  let ?s0 = "sqrt2_layer B n w n1 trunc limbs i s"
  have f0: "frame N F s ?s0"
    using assms pos by (intro sqrt2_layer_frame) simp_all
  have ins: "inside N F (0 + i) n1 (2 ^ Suc c)"
    using assms by (intro column_inside[where n=n]) auto
  then have ins': "inside N F i n1 (2 * 2 ^ c)"
    by simp
  have r1: "returns (fft_radix2_twiddle A B i n1 (2 ^ c) (w * n1) w 0 i 1 ?s0) (frame N F s)"
    by (rule returns_mono[OF radix2_twiddle_frame[OF frame_own[OF f0] pos(2) ins']])
      (rule frame_trans[OF f0])
  have "returns (Option.bind (fft_radix2_twiddle A B i n1 (2 ^ c) (w * n1) w 0 i 1 ?s0)
      (\<lambda>s1. Some (revbin_reorder i n1 (2 ^ Suc c) (Suc c) s1))) (frame N F s)"
    using r1
  proof (rule returns_bind)
    fix s1 assume f1: "frame N F s s1"
    have "frame N F s1 (revbin_reorder i n1 (2 ^ Suc c) (Suc c) s1)"
      using frame_own[OF f1] ins by (intro revbin_reorder_frame) simp_all
    with f1 show "returns (Some (revbin_reorder i n1 (2 ^ Suc c) (Suc c) s1)) (frame N F s)"
      by (simp add: returns_Some frame_trans[where ?s1.0=s1])
  qed
  then show ?thesis
    by (simp add: column_left_def)
qed

lemma column_left_sim:
  assumes "sim N R s s2" "n1 = 2 ^ Suc b" "2 * n = n1 * 2 ^ Suc c" "trunc \<le> 4 * n" "4 * n \<le> N"
    "{..<4 * n} \<subseteq> R" "i < n1"
  shows "returns2 (column_left A B n w n1 (2 ^ Suc c) trunc limbs (Suc c) i s)
    (column_left A B n w n1 (2 ^ Suc c) trunc limbs (Suc c) i s2) (sim N R)"
proof -
  have pos: "0 < n" "0 < n1"
    using assms(2,3) by (cases n; simp)+
  let ?L = "sqrt2_layer B n w n1 trunc limbs i"
  have f0: "sim N R (?L s) (?L s2)"
    using assms pos by (intro sqrt2_layer_sim) simp_all
  have ins: "inside N R (0 + i) n1 (2 ^ Suc c)"
    using assms by (intro column_inside[where n=n]) auto
  then have ins': "inside N R i n1 (2 * 2 ^ c)"
    by simp
  have "returns2
      (Option.bind (fft_radix2_twiddle A B i n1 (2 ^ c) (w * n1) w 0 i 1 (?L s))
        (\<lambda>s1. Some (revbin_reorder i n1 (2 ^ Suc c) (Suc c) s1)))
      (Option.bind (fft_radix2_twiddle A B i n1 (2 ^ c) (w * n1) w 0 i 1 (?L s2))
        (\<lambda>s1. Some (revbin_reorder i n1 (2 ^ Suc c) (Suc c) s1))) (sim N R)"
  proof (rule returns2_bind[OF radix2_twiddle_sim[OF f0 pos(2) ins']])
    fix x y assume "sim N R x (y::'a state)"
    then have "sim N R (revbin_reorder i n1 (2 ^ Suc c) (Suc c) x)
        (revbin_reorder i n1 (2 ^ Suc c) (Suc c) y)"
      using ins by (intro revbin_reorder_sim) simp_all
    then show "returns2 (Some (revbin_reorder i n1 (2 ^ Suc c) (Suc c) x))
        (Some (revbin_reorder i n1 (2 ^ Suc c) (Suc c) y)) (sim N R)"
      by (simp only: returns2_Some)
  qed
  then show ?thesis
    by (simp add: column_left_def)
qed

lemma column_right_frame:
  assumes "own N s" "n1 = 2 ^ Suc b" "2 * n = n1 * 2 ^ Suc c" "4 * n \<le> N"
    "{2 * n..<4 * n} \<subseteq> F" "i < n1" "even trunc2" "0 < trunc2" "trunc2 \<le> 2 ^ Suc c"
  shows "returns (column_right A B n w n1 (2 ^ Suc c) trunc2 (Suc c) i s) (frame N F s)"
proof -
  have pos: "0 < n1"
    using assms(2) by simp
  have ins: "inside N F (2 * n + i) n1 (2 ^ Suc c)"
    using assms by (intro column_inside[where n=n]) auto
  then have ins': "inside N F (2 * n + i) n1 (2 * 2 ^ c)"
    by simp
  have le: "trunc2 \<le> 2 * 2 ^ c"
    using assms(9) by simp
  have "returns (Option.bind (fft_truncate1_twiddle A B (2 * n + i) n1 (2 ^ c) (w * n1) w 0 i 1 trunc2 s)
      (\<lambda>s1. Some (revbin_reorder (2 * n + i) n1 (2 ^ Suc c) (Suc c) s1))) (frame N F s)"
  proof (rule returns_bind[OF truncate1_twiddle_frame[OF assms(1) pos ins' assms(7,8) le]])
    fix s1 assume f1: "frame N F s s1"
    have "frame N F s1 (revbin_reorder (2 * n + i) n1 (2 ^ Suc c) (Suc c) s1)"
      using frame_own[OF f1] ins by (intro revbin_reorder_frame) simp_all
    with f1 show "returns (Some (revbin_reorder (2 * n + i) n1 (2 ^ Suc c) (Suc c) s1)) (frame N F s)"
      by (simp add: returns_Some frame_trans[where ?s1.0=s1])
  qed
  then show ?thesis
    by (simp add: column_right_def)
qed

lemma row_transform_frame:
  assumes "own N s" "n1 = 2 ^ Suc b" "2 * n = n1 * n2" "base + 2 * n \<le> N"
    "{base..<base + 2 * n} \<subseteq> F" "i < n2"
  shows "returns (row_transform A B base w n1 n2 (Suc b) i s) (frame N F s)"
proof -
  have ins: "inside N F (base + i * n1) 1 (2 ^ Suc b)"
    using row_inside[OF assms(3,6,4,5)] assms(2) by simp
  then have ins': "inside N F (base + i * n1) 1 (2 * 2 ^ b)"
    by simp
  have "returns (Option.bind (fft_radix2 A B (base + i * n1) (2 ^ b) (w * n2) s)
      (\<lambda>s1. Some (revbin_reorder (base + i * n1) 1 (2 ^ Suc b) (Suc b) s1))) (frame N F s)"
  proof (rule returns_bind[OF radix2_frame[OF assms(1) ins']])
    fix s1 assume f1: "frame N F s s1"
    have "frame N F s1 (revbin_reorder (base + i * n1) 1 (2 ^ Suc b) (Suc b) s1)"
      using frame_own[OF f1] ins by (intro revbin_reorder_frame) simp_all
    with f1 show "returns (Some (revbin_reorder (base + i * n1) 1 (2 ^ Suc b) (Suc b) s1)) (frame N F s)"
      by (simp add: returns_Some frame_trans[where ?s1.0=s1])
  qed
  then show ?thesis
    by (simp add: row_transform_def assms(2))
qed

lemma truncate1_twiddle_sim:
  assumes "sim N R s s2" "0 < istride" "inside N R ii istride (2 * 2 ^ k)"
    "even trunc" "0 < trunc" "trunc \<le> 2 * 2 ^ k"
  shows "returns2 (fft_truncate1_twiddle A B ii istride (2 ^ k) w ws r c rs trunc s)
    (fft_truncate1_twiddle A B ii istride (2 ^ k) w ws r c rs trunc s2) (sim N R)"
  using assms
proof (induction k arbitrary: ii w r rs trunc s s2)
  case 0
  then have "trunc = 2"
    by (auto elim: evenE)
  then show ?case
    using radix2_twiddle_sim[OF 0(1,2,3)]
    by (subst (1 2) fft_truncate1_twiddle.simps) simp
next
  case (Suc k)
  let ?n = "(2::nat) ^ Suc k"
  let ?limbs = "(w * ?n) div FLINT_BITS A"
  have in1: "inside N R ii istride (2 * 2 ^ k)"
    using Suc.prems(3) by (rule inside_lower) simp
  have in2: "inside N R (ii + ?n * istride) istride (2 * 2 ^ k)"
    using Suc.prems(3) by (intro inside_upper) (simp add: mult_2)
  consider (full) "trunc = 2 * ?n" | (low) "trunc \<le> ?n" | (mid) "?n < trunc" "trunc < 2 * ?n"
    using Suc.prems(6) by fastforce
  then show ?case
  proof cases
    case full
    then show ?thesis
      using radix2_twiddle_sim[OF Suc.prems(1,2,3)]
      by (subst (1 2) fft_truncate1_twiddle.simps) simp
  next
    case low
    let ?L = "add_layer A ii istride ?n ?limbs"
    have f0: "sim N R (?L s) (?L s2)"
      using Suc.prems(1,3) by (intro add_layer_sim) simp_all
    have le: "trunc \<le> 2 * 2 ^ k"
      using low by simp
    have "returns2 (fft_truncate1_twiddle A B ii istride (2 ^ k) (2 * w) ws r c (2 * rs) trunc (?L s))
        (fft_truncate1_twiddle A B ii istride (2 ^ k) (2 * w) ws r c (2 * rs) trunc (?L s2)) (sim N R)"
      by (rule Suc.IH[OF f0 Suc.prems(2) in1 Suc.prems(4,5) le])
    moreover have "trunc \<noteq> 2 * ?n"
    proof -
      have "(0::nat) < 2 ^ k"
        by simp
      with low show ?thesis
        unfolding power_Suc by linarith
    qed
    ultimately show ?thesis
      using low by (subst (1 2) fft_truncate1_twiddle.simps) simp
  next
    case mid
    let ?L = "butterfly_layer B ii istride ?n ?limbs w"
    have f0: "sim N R (?L s) (?L s2)"
      using Suc.prems by (intro butterfly_layer_sim) simp_all
    have ev: "even (trunc - ?n)" "0 < trunc - ?n" "trunc - ?n \<le> 2 * 2 ^ k"
      using mid Suc.prems(4) by simp_all
    have "returns2
        (Option.bind (fft_radix2_twiddle A B ii istride (2 ^ k) (2 * w) ws r c (2 * rs) (?L s))
          (fft_truncate1_twiddle A B (ii + ?n * istride) istride (2 ^ k) (2 * w) ws (r + rs) c (2 * rs)
            (trunc - ?n)))
        (Option.bind (fft_radix2_twiddle A B ii istride (2 ^ k) (2 * w) ws r c (2 * rs) (?L s2))
          (fft_truncate1_twiddle A B (ii + ?n * istride) istride (2 ^ k) (2 * w) ws (r + rs) c (2 * rs)
            (trunc - ?n))) (sim N R)"
      by (rule returns2_bind[OF radix2_twiddle_sim[OF f0 Suc.prems(2) in1]])
        (rule Suc.IH[OF _ Suc.prems(2) in2 ev])
    then show ?thesis
      using mid by (subst (1 2) fft_truncate1_twiddle.simps) simp
  qed
qed

lemma column_right_sim:
  assumes "sim N R s s2" "n1 = 2 ^ Suc b" "2 * n = n1 * 2 ^ Suc c" "4 * n \<le> N"
    "{2 * n..<4 * n} \<subseteq> R" "i < n1" "even trunc2" "0 < trunc2" "trunc2 \<le> 2 ^ Suc c"
  shows "returns2 (column_right A B n w n1 (2 ^ Suc c) trunc2 (Suc c) i s)
    (column_right A B n w n1 (2 ^ Suc c) trunc2 (Suc c) i s2) (sim N R)"
proof -
  have pos: "0 < n1"
    using assms(2) by simp
  have ins: "inside N R (2 * n + i) n1 (2 ^ Suc c)"
    using assms by (intro column_inside[where n=n]) auto
  then have ins': "inside N R (2 * n + i) n1 (2 * 2 ^ c)"
    by simp
  have le: "trunc2 \<le> 2 * 2 ^ c"
    using assms(9) by simp
  have "returns2
      (Option.bind (fft_truncate1_twiddle A B (2 * n + i) n1 (2 ^ c) (w * n1) w 0 i 1 trunc2 s)
        (\<lambda>s1. Some (revbin_reorder (2 * n + i) n1 (2 ^ Suc c) (Suc c) s1)))
      (Option.bind (fft_truncate1_twiddle A B (2 * n + i) n1 (2 ^ c) (w * n1) w 0 i 1 trunc2 s2)
        (\<lambda>s1. Some (revbin_reorder (2 * n + i) n1 (2 ^ Suc c) (Suc c) s1))) (sim N R)"
  proof (rule returns2_bind[OF truncate1_twiddle_sim[OF assms(1) pos ins' assms(7,8) le]])
    fix x y assume "sim N R x (y::'a state)"
    then have "sim N R (revbin_reorder (2 * n + i) n1 (2 ^ Suc c) (Suc c) x)
        (revbin_reorder (2 * n + i) n1 (2 ^ Suc c) (Suc c) y)"
      using ins by (intro revbin_reorder_sim) simp_all
    then show "returns2 (Some (revbin_reorder (2 * n + i) n1 (2 ^ Suc c) (Suc c) x))
        (Some (revbin_reorder (2 * n + i) n1 (2 ^ Suc c) (Suc c) y)) (sim N R)"
      by (simp only: returns2_Some)
  qed
  then show ?thesis
    by (simp add: column_right_def)
qed

lemma row_transform_sim:
  assumes "sim N R s s2" "n1 = 2 ^ Suc b" "2 * n = n1 * n2" "base + 2 * n \<le> N"
    "{base..<base + 2 * n} \<subseteq> R" "i < n2"
  shows "returns2 (row_transform A B base w n1 n2 (Suc b) i s)
    (row_transform A B base w n1 n2 (Suc b) i s2) (sim N R)"
proof -
  have ins: "inside N R (base + i * n1) 1 (2 ^ Suc b)"
    using row_inside[OF assms(3,6,4,5)] assms(2) by simp
  then have ins': "inside N R (base + i * n1) 1 (2 * 2 ^ b)"
    by simp
  have "returns2
      (Option.bind (fft_radix2 A B (base + i * n1) (2 ^ b) (w * n2) s)
        (\<lambda>s1. Some (revbin_reorder (base + i * n1) 1 (2 ^ Suc b) (Suc b) s1)))
      (Option.bind (fft_radix2 A B (base + i * n1) (2 ^ b) (w * n2) s2)
        (\<lambda>s1. Some (revbin_reorder (base + i * n1) 1 (2 ^ Suc b) (Suc b) s1))) (sim N R)"
  proof (rule returns2_bind[OF radix2_sim[OF assms(1) ins']])
    fix x y assume "sim N R x (y::'a state)"
    then have "sim N R (revbin_reorder (base + i * n1) 1 (2 ^ Suc b) (Suc b) x)
        (revbin_reorder (base + i * n1) 1 (2 ^ Suc b) (Suc b) y)"
      using ins by (intro revbin_reorder_sim) simp_all
    then show "returns2 (Some (revbin_reorder (base + i * n1) 1 (2 ^ Suc b) (Suc b) x))
        (Some (revbin_reorder (base + i * n1) 1 (2 ^ Suc b) (Suc b) y)) (sim N R)"
      by (simp only: returns2_Some)
  qed
  then show ?thesis
    by (simp add: row_transform_def assms(2))
qed

lemma columns_left_frame:
  assumes "own N s" "n1 = 2 ^ Suc b" "2 * n = n1 * 2 ^ Suc c" "trunc \<le> 4 * n" "4 * n \<le> N"
    "{..<4 * n} \<subseteq> F"
  shows "returns (columns_left A B n w n1 (2 ^ Suc c) trunc limbs (Suc c) s) (frame N F s)"
  unfolding columns_left_def
  using assms(1)
proof (rule for_each_frame[rotated])
  fix i s' assume "i \<in> set [0..<n1]" "own N (s'::'a state)"
  then show "returns (column_left A B n w n1 (2 ^ Suc c) trunc limbs (Suc c) i s') (frame N F s')"
    using assms(2-) by (intro column_left_frame) simp_all
qed

lemma columns_left_sim:
  assumes "sim N R s s2" "n1 = 2 ^ Suc b" "2 * n = n1 * 2 ^ Suc c" "trunc \<le> 4 * n" "4 * n \<le> N"
    "{..<4 * n} \<subseteq> R"
  shows "returns2 (columns_left A B n w n1 (2 ^ Suc c) trunc limbs (Suc c) s)
    (columns_left A B n w n1 (2 ^ Suc c) trunc limbs (Suc c) s2) (sim N R)"
  unfolding columns_left_def
  using assms(1)
proof (rule for_each_sim[rotated])
  fix i x y assume "i \<in> set [0..<n1]" "sim N R x (y::'a state)"
  then show "returns2 (column_left A B n w n1 (2 ^ Suc c) trunc limbs (Suc c) i x)
      (column_left A B n w n1 (2 ^ Suc c) trunc limbs (Suc c) i y) (sim N R)"
    using assms(2-) by (intro column_left_sim) simp_all
qed

lemma columns_right_frame:
  assumes "own N s" "n1 = 2 ^ Suc b" "2 * n = n1 * 2 ^ Suc c" "4 * n \<le> N"
    "{2 * n..<4 * n} \<subseteq> F" "even trunc2" "0 < trunc2" "trunc2 \<le> 2 ^ Suc c"
  shows "returns (columns_right A B n w n1 (2 ^ Suc c) trunc2 (Suc c) s) (frame N F s)"
  unfolding columns_right_def
  using assms(1)
proof (rule for_each_frame[rotated])
  fix i s' assume "i \<in> set [0..<n1]" "own N (s'::'a state)"
  then show "returns (column_right A B n w n1 (2 ^ Suc c) trunc2 (Suc c) i s') (frame N F s')"
    using assms(2-) by (intro column_right_frame) simp_all
qed

lemma columns_right_sim:
  assumes "sim N R s s2" "n1 = 2 ^ Suc b" "2 * n = n1 * 2 ^ Suc c" "4 * n \<le> N"
    "{2 * n..<4 * n} \<subseteq> R" "even trunc2" "0 < trunc2" "trunc2 \<le> 2 ^ Suc c"
  shows "returns2 (columns_right A B n w n1 (2 ^ Suc c) trunc2 (Suc c) s)
    (columns_right A B n w n1 (2 ^ Suc c) trunc2 (Suc c) s2) (sim N R)"
  unfolding columns_right_def
  using assms(1)
proof (rule for_each_sim[rotated])
  fix i x y assume "i \<in> set [0..<n1]" "sim N R x (y::'a state)"
  then show "returns2 (column_right A B n w n1 (2 ^ Suc c) trunc2 (Suc c) i x)
      (column_right A B n w n1 (2 ^ Suc c) trunc2 (Suc c) i y) (sim N R)"
    using assms(2-) by (intro column_right_sim) simp_all
qed

lemma rows_left_frame:
  assumes "own N s" "n1 = 2 ^ Suc b" "2 * n = n1 * n2" "2 * n \<le> N" "{..<2 * n} \<subseteq> F"
  shows "returns (rows_left A B w n1 n2 (Suc b) s) (frame N F s)"
  unfolding rows_left_def
  using assms(1)
proof (rule for_each_frame[rotated])
  fix i s' assume "i \<in> set [0..<n2]" "own N (s'::'a state)"
  then show "returns (row_transform A B 0 w n1 n2 (Suc b) i s') (frame N F s')"
    using assms(2-) by (intro row_transform_frame[where n=n]) auto
qed

lemma rows_left_sim:
  assumes "sim N R s s2" "n1 = 2 ^ Suc b" "2 * n = n1 * n2" "2 * n \<le> N" "{..<2 * n} \<subseteq> R"
  shows "returns2 (rows_left A B w n1 n2 (Suc b) s) (rows_left A B w n1 n2 (Suc b) s2) (sim N R)"
  unfolding rows_left_def
  using assms(1)
proof (rule for_each_sim[rotated])
  fix i x y assume "i \<in> set [0..<n2]" "sim N R x (y::'a state)"
  then show "returns2 (row_transform A B 0 w n1 n2 (Suc b) i x)
      (row_transform A B 0 w n1 n2 (Suc b) i y) (sim N R)"
    using assms(2-) by (intro row_transform_sim[where n=n]) auto
qed


lemma rows_right_sim:
  assumes "sim N R s s2" "n1 = 2 ^ Suc b" "2 * n = n1 * 2 ^ Suc c" "4 * n \<le> N" "{2 * n..<4 * n} \<subseteq> R"
  shows "returns2 (rows_right A B n w n1 (2 ^ Suc c) trunc2 (Suc c) (Suc b) s)
    (rows_right A B n w n1 (2 ^ Suc c) trunc2 (Suc c) (Suc b) s2) (sim N R)"
  unfolding rows_right_def
  using assms(1)
proof (rule for_each_sim[rotated])
  fix k x y assume "k \<in> set [0..<trunc2]" "sim N R x (y::'a state)"
  then show "returns2 (row_transform A B (2 * n) w n1 (2 ^ Suc c) (Suc b) (n_revbin k (Suc c)) x)
      (row_transform A B (2 * n) w n1 (2 ^ Suc c) (Suc b) (n_revbin k (Suc c)) y) (sim N R)"
    using assms(2-) n_revbin_less[of k "Suc c"] by (intro row_transform_sim[where n=n]) auto
qed

lemma mfa_unfold:
  assumes "mfa_params b c n n1 trunc"
  shows "fft_mfa_truncate_sqrt2 A B n w n1 trunc s =
    Option.bind (columns_left A B n w n1 (2 ^ Suc c) trunc ((n * w) div FLINT_BITS A) (Suc c) s) (\<lambda>s1.
    Option.bind (rows_left A B w n1 (2 ^ Suc c) (Suc b) s1) (\<lambda>s2.
    Option.bind (columns_right A B n w n1 (2 ^ Suc c) ((trunc - 2 * n) div n1) (Suc c) s2)
      (rows_right A B n w n1 (2 ^ Suc c) ((trunc - 2 * n) div n1) (Suc c) (Suc b))))"
proof -
  note p = mfa_params_facts[OF assms]
  have d1: "depth_loop (2 ^ Suc c) 0 = Suc c" and d2: "depth_loop n1 0 = Suc b"
    unfolding p(1) by (rule depth_loop_pow2, simp)+
  show ?thesis
    using p(5) unfolding fft_mfa_truncate_sqrt2_def Let_def p(3) d1 d2 by simp
qed

lemma mfa_outer_unfold:
  assumes "mfa_params b c n n1 trunc"
  shows "fft_mfa_truncate_sqrt2_outer A B n w n1 trunc s =
    Option.bind (columns_left A B n w n1 (2 ^ Suc c) trunc ((n * w) div FLINT_BITS A) (Suc c) s)
      (columns_right A B n w n1 (2 ^ Suc c) ((trunc - 2 * n) div n1) (Suc c))"
proof -
  note p = mfa_params_facts[OF assms]
  have d1: "depth_loop (2 ^ Suc c) 0 = Suc c"
    by (rule depth_loop_pow2) simp
  show ?thesis
    using p(5) unfolding fft_mfa_truncate_sqrt2_outer_def Let_def p(3) d1 by simp
qed




lemma mfa_sim:
  assumes "mfa_params b c n n1 trunc" "sim (4 * n) UNIV s s2"
  shows "returns2 (fft_mfa_truncate_sqrt2 A B n w n1 trunc s)
    (fft_mfa_truncate_sqrt2 A B n w n1 trunc s2) (sim (4 * n) UNIV)"
proof -
  note p = mfa_params_facts[OF assms(1)]
  let ?N = "4 * n" and ?t2 = "(trunc - 2 * n) div n1" and ?limbs = "(n * w) div FLINT_BITS A"
  have "returns2 (columns_left A B n w n1 (2 ^ Suc c) trunc ?limbs (Suc c) s)
      (columns_left A B n w n1 (2 ^ Suc c) trunc ?limbs (Suc c) s2) (sim ?N UNIV)"
    using assms(2) p by (intro columns_left_sim) simp_all
  then show ?thesis
    unfolding mfa_unfold[OF assms(1)]
  proof (rule returns2_bind)
    fix x y assume "sim ?N UNIV x (y::'a state)"
    then have "returns2 (rows_left A B w n1 (2 ^ Suc c) (Suc b) x)
        (rows_left A B w n1 (2 ^ Suc c) (Suc b) y) (sim ?N UNIV)"
      using p by (intro rows_left_sim[where n=n]) simp_all
    then show "returns2
        (Option.bind (rows_left A B w n1 (2 ^ Suc c) (Suc b) x) (\<lambda>s2.
          Option.bind (columns_right A B n w n1 (2 ^ Suc c) ?t2 (Suc c) s2)
            (rows_right A B n w n1 (2 ^ Suc c) ?t2 (Suc c) (Suc b))))
        (Option.bind (rows_left A B w n1 (2 ^ Suc c) (Suc b) y) (\<lambda>s2.
          Option.bind (columns_right A B n w n1 (2 ^ Suc c) ?t2 (Suc c) s2)
            (rows_right A B n w n1 (2 ^ Suc c) ?t2 (Suc c) (Suc b)))) (sim ?N UNIV)"
    proof (rule returns2_bind)
      fix x y assume "sim ?N UNIV x (y::'a state)"
      then have "returns2 (columns_right A B n w n1 (2 ^ Suc c) ?t2 (Suc c) x)
          (columns_right A B n w n1 (2 ^ Suc c) ?t2 (Suc c) y) (sim ?N UNIV)"
        using p by (intro columns_right_sim) simp_all
      then show "returns2
          (Option.bind (columns_right A B n w n1 (2 ^ Suc c) ?t2 (Suc c) x)
            (rows_right A B n w n1 (2 ^ Suc c) ?t2 (Suc c) (Suc b)))
          (Option.bind (columns_right A B n w n1 (2 ^ Suc c) ?t2 (Suc c) y)
            (rows_right A B n w n1 (2 ^ Suc c) ?t2 (Suc c) (Suc b))) (sim ?N UNIV)"
      proof (rule returns2_bind)
        fix x y assume "sim ?N UNIV x (y::'a state)"
        then show "returns2 (rows_right A B n w n1 (2 ^ Suc c) ?t2 (Suc c) (Suc b) x)
            (rows_right A B n w n1 (2 ^ Suc c) ?t2 (Suc c) (Suc b) y) (sim ?N UNIV)"
          using p by (intro rows_right_sim) simp_all
      qed
    qed
  qed
qed

text \<open>
  Claim C9. The signal that \<^verbatim>\<open>fft_mfa_truncate_sqrt2\<close> returns is a function of the
  contents of the \<open>4 * n\<close> slots and of \<open>(n, w, n1, trunc)\<close> alone: two runs on states
  without aliasing whose slots hold equal coefficients both return, with equal
  coefficients in every slot, whatever buffers hold them and whatever the scratch
  buffers held.
\<close>

theorem fft_mfa_truncate_sqrt2_deterministic:
  assumes "mfa_params b c n n1 trunc" "own (4 * n) s" "own (4 * n) s2"
    "\<forall>j<4 * n. val s j = val s2 j"
  shows "\<exists>s' s2'. fft_mfa_truncate_sqrt2 A B n w n1 trunc s = Some s' \<and>
           fft_mfa_truncate_sqrt2 A B n w n1 trunc s2 = Some s2' \<and>
           (\<forall>j<4 * n. val s' j = val s2' j)"
proof -
  have "sim (4 * n) UNIV s s2"
    using assms(2-) by (simp add: sim_def)
  from mfa_sim[OF assms(1) this, of A B w] show ?thesis
    by (auto dest!: returns2E simp: sim_def)
qed

theorem fft_mfa_truncate_sqrt2_deterministic_witness:
  "\<exists>s' s2'. fft_mfa_truncate_sqrt2 sym_arith sym_bfly 2 64 2 8 signal0 = Some s' \<and>
      fft_mfa_truncate_sqrt2 sym_arith sym_bfly 2 64 2 8 signal1 = Some s2' \<and>
      val s' 0 = val s2' 0 \<and> val s' 7 = val s2' 7"
proof -
  have own: "own (4 * 2) signal0" "own (4 * 2) signal1"
    by (simp_all add: own_def signal0_def signal1_def upt_conv_Cons)
  have par: "mfa_params 0 0 2 2 8"
    by (simp add: mfa_params_def)
  have eq: "\<forall>j<4 * 2. val signal0 j = val signal1 j"
    by (simp add: val_def signal0_def signal1_def)
  from fft_mfa_truncate_sqrt2_deterministic[OF par own eq, of sym_arith sym_bfly 64]
  obtain s' s2' where "fft_mfa_truncate_sqrt2 sym_arith sym_bfly 2 64 2 8 signal0 = Some s'"
    "fft_mfa_truncate_sqrt2 sym_arith sym_bfly 2 64 2 8 signal1 = Some s2'"
    "\<forall>j<4 * 2. val s' j = val s2' j"
    by blast
  then show ?thesis
    by simp
qed

lemma mfa_split:
  "fft_mfa_truncate_sqrt2 A B n w n1 trunc s =
     Option.bind (mfa_before_right_rows A B n w n1 trunc s)
       (rows_right A B n w n1 ((2 * n) div n1) ((trunc - 2 * n) div n1)
          (depth_loop ((2 * n) div n1) 0) (depth_loop n1 0))"
  by (simp add: fft_mfa_truncate_sqrt2_def mfa_before_right_rows_def Let_def)

lemma frame_sim:
  assumes "frame N F s s'" "own N s" "R \<inter> F = {}"
  shows "sim N R s s'"
  using assms by (auto simp: frame_def sim_def)

lemma sim_trans: "sim N R s s1 \<Longrightarrow> sim N R s1 s2 \<Longrightarrow> sim N R s s2"
  by (simp add: sim_def)

lemma sim_refl: "own N s \<Longrightarrow> sim N R s s"
  by (simp add: sim_def)

text \<open>
  Claim C1, as the code has it. \<^verbatim>\<open>fft_mfa_truncate_sqrt2_outer\<close> has no loop over rows,
  for either half. On the documented parameters it returns, and so do the two prefixes
  of \<^verbatim>\<open>fft_mfa_truncate_sqrt2\<close>; every slot of the left half owns the buffer, with the
  contents, that it has in the full variant after the columns of the left half (before
  the rows of the left half); every slot of the right half holds the contents that it
  has in the full variant immediately before the rows of the right half; and the
  full variant is that state followed by the rows of the right half.
\<close>

theorem fft_mfa_truncate_sqrt2_outer_state:
  assumes "mfa_params b c n n1 trunc" "own (4 * n) s"
  shows "\<exists>so sl sr.
      fft_mfa_truncate_sqrt2_outer A B n w n1 trunc s = Some so \<and>
      mfa_after_left_columns A B n w n1 trunc s = Some sl \<and>
      mfa_before_right_rows A B n w n1 trunc s = Some sr \<and>
      (\<forall>j<2 * n. slot so j = slot sl j \<and> val so j = val sl j) \<and>
      (\<forall>j<2 * n. val so (2 * n + j) = val sr (2 * n + j)) \<and>
      fft_mfa_truncate_sqrt2 A B n w n1 trunc s =
        rows_right A B n w n1 ((2 * n) div n1) ((trunc - 2 * n) div n1)
          (depth_loop ((2 * n) div n1) 0) (depth_loop n1 0) sr"
proof -
  note p = mfa_params_facts[OF assms(1)]
  let ?N = "4 * n" and ?t2 = "(trunc - 2 * n) div n1" and ?limbs = "(n * w) div FLINT_BITS A"
  let ?L = "{..<2 * n}" and ?R = "{2 * n..<4 * n}"
  have d1: "depth_loop (2 ^ Suc c) 0 = Suc c" and d2: "depth_loop n1 0 = Suc b"
    unfolding p(1) by (rule depth_loop_pow2, simp)+
  have "returns (columns_left A B n w n1 (2 ^ Suc c) trunc ?limbs (Suc c) s) (frame ?N UNIV s)"
    using assms(2) p by (intro columns_left_frame) simp_all
  then obtain sl where sl: "columns_left A B n w n1 (2 ^ Suc c) trunc ?limbs (Suc c) s = Some sl"
    and fl: "frame ?N UNIV s sl"
    by (blast dest: returnsE)
  have ol: "own ?N sl"
    using fl by (rule frame_own)
  have "returns (columns_right A B n w n1 (2 ^ Suc c) ?t2 (Suc c) sl) (frame ?N ?R sl)"
    using ol p by (intro columns_right_frame) simp_all
  then obtain so where so: "columns_right A B n w n1 (2 ^ Suc c) ?t2 (Suc c) sl = Some so"
    and fo: "frame ?N ?R sl so"
    by (blast dest: returnsE)
  have "returns (rows_left A B w n1 (2 ^ Suc c) (Suc b) sl) (frame ?N ?L sl)"
    using ol p by (intro rows_left_frame[where n=n]) simp_all
  then obtain s2 where s2: "rows_left A B w n1 (2 ^ Suc c) (Suc b) sl = Some s2"
    and f2: "frame ?N ?L sl s2"
    by (blast dest: returnsE)
  have "sim ?N ?R sl s2"
    using f2 ol by (rule frame_sim) auto
  then have "returns2 (columns_right A B n w n1 (2 ^ Suc c) ?t2 (Suc c) sl)
      (columns_right A B n w n1 (2 ^ Suc c) ?t2 (Suc c) s2) (sim ?N ?R)"
    using p by (intro columns_right_sim) simp_all
  then obtain sr where sr: "columns_right A B n w n1 (2 ^ Suc c) ?t2 (Suc c) s2 = Some sr"
    and sm: "sim ?N ?R so sr"
    unfolding so by (auto dest!: returns2E)
  have 1: "fft_mfa_truncate_sqrt2_outer A B n w n1 trunc s = Some so"
    unfolding mfa_outer_unfold[OF assms(1)] by (simp add: sl so del: power_Suc)
  have 2: "mfa_after_left_columns A B n w n1 trunc s = Some sl"
    using p(5) by (simp add: mfa_after_left_columns_def Let_def p(3) d1 sl del: power_Suc)
  have 3: "mfa_before_right_rows A B n w n1 trunc s = Some sr"
    using p(5) by (simp add: mfa_before_right_rows_def Let_def p(3) d1 d2 sl s2 sr del: power_Suc)
  have 4: "\<forall>j<2 * n. slot so j = slot sl j \<and> val so j = val sl j"
    using fo by (auto simp: frame_def)
  have 5: "\<forall>j<2 * n. val so (2 * n + j) = val sr (2 * n + j)"
    using sm by (auto simp: sim_def)
  have 6: "fft_mfa_truncate_sqrt2 A B n w n1 trunc s =
        rows_right A B n w n1 ((2 * n) div n1) ((trunc - 2 * n) div n1)
          (depth_loop ((2 * n) div n1) 0) (depth_loop n1 0) sr"
    unfolding mfa_split 3 by simp
  from 1 2 3 4 5 6 show ?thesis
    by blast
qed

theorem fft_mfa_truncate_sqrt2_outer_state_witness:
  "\<exists>so sl sr.
      fft_mfa_truncate_sqrt2_outer sym_arith sym_bfly 2 64 2 8 signal0 = Some so \<and>
      mfa_after_left_columns sym_arith sym_bfly 2 64 2 8 signal0 = Some sl \<and>
      mfa_before_right_rows sym_arith sym_bfly 2 64 2 8 signal0 = Some sr \<and>
      slot so 0 = slot sl 0 \<and> val so 3 = val sl 3 \<and> val so 4 = val sr 4 \<and> val so 7 = val sr 7"
proof -
  have own: "own (4 * 2) signal0"
    by (simp add: own_def signal0_def upt_conv_Cons)
  have par: "mfa_params 0 0 2 2 8"
    by (simp add: mfa_params_def)
  from fft_mfa_truncate_sqrt2_outer_state[OF par own, of sym_arith sym_bfly 64]
  obtain so sl sr where
    a: "fft_mfa_truncate_sqrt2_outer sym_arith sym_bfly 2 64 2 8 signal0 = Some so"
      "mfa_after_left_columns sym_arith sym_bfly 2 64 2 8 signal0 = Some sl"
      "mfa_before_right_rows sym_arith sym_bfly 2 64 2 8 signal0 = Some sr"
    and l: "\<And>j. j < 2 * 2 \<Longrightarrow> slot so j = slot sl j \<and> val so j = val sl j"
    and r: "\<And>j. j < 2 * 2 \<Longrightarrow> val so (2 * 2 + j) = val sr (2 * 2 + j)"
    by blast
  show ?thesis
    using a l[of 0] l[of 3] r[of 0] r[of 3]
    by (intro exI[of _ so] exI[of _ sl] exI[of _ sr]) simp
qed

text \<open>
  The claim as stated fails: after \<^verbatim>\<open>fft_mfa_truncate_sqrt2_outer\<close> slot 0 of the left
  half does not hold what it holds after \<^verbatim>\<open>fft_mfa_truncate_sqrt2\<close>, whose rows of the
  left half have been transformed.
\<close>

theorem fft_mfa_truncate_sqrt2_outer_left_half_counterexample:
  "val (the (fft_mfa_truncate_sqrt2_outer sym_arith sym_bfly 2 64 2 8 signal0)) 0 \<noteq>
   val (the (fft_mfa_truncate_sqrt2 sym_arith sym_bfly 2 64 2 8 signal0)) 0"
  by code_simp

lemma place_sqrt2_pair_effect:
  assumes "own N s" "a < N" "b < N" "a \<noteq> b"
  shows "pair_effect N a b (\<lambda>x y. (fst (g x y), fst (snd (g x y)))) s
    (place_sqrt2 a b (g (val s a) (val s b)) s)"
proof -
  have "own N (place_sqrt2 a b (g (val s a) (val s b)) s)"
    using place_sqrt2_frame[OF assms, of UNIV] by (simp add: frame_def)
  moreover have "slot (place_sqrt2 a b uvt s) j = slot s j" if "j \<noteq> a \<and> j \<noteq> b" for j uvt
    using that by (simp add: place_sqrt2_def place_slot)
  ultimately show ?thesis
    using assms by (simp add: pair_effect_def place_sqrt2_val[where N=N])
qed

lemma write_slot_temp_pair_effect:
  assumes "own N s" "a < N" "b < N" "a \<noteq> b"
  shows "pair_effect N a b (\<lambda>x y. (x, fst (g x))) s (write_slot_temp b (g (val s a)) s)"
proof -
  have "own N (write_slot_temp b (g (val s a)) s)"
    using write_slot_temp_frame[OF assms(1,3), of UNIV] by (simp add: frame_def)
  moreover have "slot (write_slot_temp b xt s) = slot s" for xt
    by (simp add: write_slot_temp_def)
  ultimately show ?thesis
    using assms by (simp add: pair_effect_def write_slot_temp_val[where N=N])
qed

lemma for_step_pairs:
  assumes body: "\<And>j s. j < bound \<Longrightarrow> own N s \<Longrightarrow> pair_effect N j (off + j) (h j) s (body j s)"
    and "0 < step" "own N s" "bound \<le> off" "off + bound \<le> N"
  shows "\<exists>cnt. fst (for_step body j0 bound step s) = j0 + cnt * step \<and>
      (\<forall>k<cnt. j0 + k * step < bound) \<and> bound \<le> j0 + cnt * step \<and>
      own N (snd (for_step body j0 bound step s)) \<and>
      (\<forall>k<cnt. val (snd (for_step body j0 bound step s)) (j0 + k * step) =
                  fst (h (j0 + k * step) (val s (j0 + k * step)) (val s (off + (j0 + k * step)))) \<and>
               val (snd (for_step body j0 bound step s)) (off + (j0 + k * step)) =
                  snd (h (j0 + k * step) (val s (j0 + k * step)) (val s (off + (j0 + k * step))))) \<and>
      (\<forall>m<N. (\<forall>k<cnt. m \<noteq> j0 + k * step \<and> m \<noteq> off + (j0 + k * step)) \<longrightarrow>
          val (snd (for_step body j0 bound step s)) m = val s m) \<and>
      (\<forall>m. (\<forall>k<cnt. m \<noteq> j0 + k * step \<and> m \<noteq> off + (j0 + k * step)) \<longrightarrow>
          slot (snd (for_step body j0 bound step s)) m = slot s m)"
proof -
  obtain cnt where run: "for_step body j0 bound step s =
           (j0 + cnt * step, fold (\<lambda>k. body (j0 + k * step)) [0..<cnt] s)"
    and lt: "\<forall>k<cnt. j0 + k * step < bound" and ge: "bound \<le> j0 + cnt * step"
    using for_step_fold[OF assms(2), of body j0 bound s] by blast
  let ?a = "\<lambda>k. j0 + k * step" and ?b = "\<lambda>k. off + (j0 + k * step)"
  let ?f = "\<lambda>k. body (j0 + k * step)"
  have "own N (fold ?f [0..<cnt] s) \<and>
     (\<forall>i<cnt. val (fold ?f [0..<cnt] s) (?a i) = fst (h (?a i) (val s (?a i)) (val s (?b i))) \<and>
            val (fold ?f [0..<cnt] s) (?b i) = snd (h (?a i) (val s (?a i)) (val s (?b i)))) \<and>
     (\<forall>j<N. (\<forall>i<cnt. j \<noteq> ?a i \<and> j \<noteq> ?b i) \<longrightarrow> val (fold ?f [0..<cnt] s) j = val s j) \<and>
     (\<forall>j. (\<forall>i<cnt. j \<noteq> ?a i \<and> j \<noteq> ?b i) \<longrightarrow> slot (fold ?f [0..<cnt] s) j = slot s j)"
  proof (rule fold_pairs_val[where n=cnt and h="\<lambda>k. h (j0 + k * step)"])
    fix i s' assume "i < cnt" "own N (s'::'a state)"
    then show "pair_effect N (?a i) (?b i) (h (j0 + i * step)) s' (body (j0 + i * step) s')"
      using lt by (intro body) simp_all
  next
    fix i i' assume "i < cnt" "i' < cnt"
    then have "?a i < bound" "?a i' < bound"
      using lt by simp_all
    then show "?a i \<noteq> ?b i' \<and> (?a i = ?a i' \<longrightarrow> i = i') \<and> (?b i = ?b i' \<longrightarrow> i = i')"
      using assms(2,4) by auto
  next
    fix i assume "i < cnt"
    then have "?a i < bound"
      using lt by simp
    then show "?a i < N \<and> ?b i < N"
      using assms(4,5) by simp
  qed (simp_all add: assms(3))
  then show ?thesis
    using lt ge by (intro exI[of _ cnt]) (simp add: run)
qed

lemma for_step_slot_const:
  assumes "\<And>j s. slot (body j s) = slot s" "0 < step"
  shows "slot (snd (for_step body j0 bound step s)) = slot s"
proof -
  obtain cnt where run: "for_step body j0 bound step s =
           (j0 + cnt * step, fold (\<lambda>k. body (j0 + k * step)) [0..<cnt] s)"
    using for_step_fold[OF assms(2), of body j0 bound s] by blast
  have "slot (fold f xs s) = slot s" if "\<And>k s. slot (f k s) = slot s" for f and xs :: "nat list"
    using that by (induction xs arbitrary: s) simp_all
  then show ?thesis
    by (simp add: run assms(1))
qed

lemma two_loops_column:
  assumes b1: "\<And>j s. j < bnd \<Longrightarrow> own N s \<Longrightarrow> pair_effect N j (off + j) (h j) s (body1 j s)"
    and b2: "\<And>j s. j < off \<Longrightarrow> own N s \<Longrightarrow> pair_effect N j (off + j) (\<lambda>x y. (x, g j x)) s (body2 j s)"
    and b2s: "\<And>j s. slot (body2 j s) = slot s"
    and st: "0 < step" and own: "own N s" and bo: "bnd \<le> off" and oN: "2 * off \<le> N"
    and j: "j = i + m * step" "j < off"
  shows "(j < bnd \<longrightarrow>
      val (snd (for_step body2 (fst (for_step body1 i bnd step s)) off step
        (snd (for_step body1 i bnd step s)))) j = fst (h j (val s j) (val s (off + j))) \<and>
      val (snd (for_step body2 (fst (for_step body1 i bnd step s)) off step
        (snd (for_step body1 i bnd step s)))) (off + j) = snd (h j (val s j) (val s (off + j)))) \<and>
    (bnd \<le> j \<longrightarrow>
      val (snd (for_step body2 (fst (for_step body1 i bnd step s)) off step
        (snd (for_step body1 i bnd step s)))) j = val s j \<and>
      val (snd (for_step body2 (fst (for_step body1 i bnd step s)) off step
        (snd (for_step body1 i bnd step s)))) (off + j) = g j (val s j) \<and>
      slot (snd (for_step body2 (fst (for_step body1 i bnd step s)) off step
        (snd (for_step body1 i bnd step s)))) j = slot s j \<and>
      slot (snd (for_step body2 (fst (for_step body1 i bnd step s)) off step
        (snd (for_step body1 i bnd step s)))) (off + j) = slot s (off + j))"
proof -
  let ?s1 = "snd (for_step body1 i bnd step s)" and ?j1 = "fst (for_step body1 i bnd step s)"
  let ?s2 = "snd (for_step body2 ?j1 off step ?s1)"
  have N1: "off + bnd \<le> N" and N2: "off + off \<le> N"
    using bo oN by simp_all
  obtain c1 where j1: "?j1 = i + c1 * step" and lt1: "\<And>k. k < c1 \<Longrightarrow> i + k * step < bnd"
    and ge1: "bnd \<le> i + c1 * step" and own1: "own N ?s1"
    and v1: "\<And>k. k < c1 \<Longrightarrow> val ?s1 (i + k * step) =
                  fst (h (i + k * step) (val s (i + k * step)) (val s (off + (i + k * step)))) \<and>
               val ?s1 (off + (i + k * step)) =
                  snd (h (i + k * step) (val s (i + k * step)) (val s (off + (i + k * step))))"
    and u1: "\<And>x. x < N \<Longrightarrow> (\<forall>k<c1. x \<noteq> i + k * step \<and> x \<noteq> off + (i + k * step)) \<Longrightarrow>
          val ?s1 x = val s x"
    and p1: "\<And>x. (\<forall>k<c1. x \<noteq> i + k * step \<and> x \<noteq> off + (i + k * step)) \<Longrightarrow> slot ?s1 x = slot s x"
    using for_step_pairs[OF b1 st own bo N1, of i] by blast
  obtain c2 where lt2: "\<And>k. k < c2 \<Longrightarrow> ?j1 + k * step < off"
    and ge2: "off \<le> ?j1 + c2 * step"
    and v2: "\<And>k. k < c2 \<Longrightarrow> val ?s2 (?j1 + k * step) =
                  fst (val ?s1 (?j1 + k * step), g (?j1 + k * step) (val ?s1 (?j1 + k * step))) \<and>
               val ?s2 (off + (?j1 + k * step)) =
                  snd (val ?s1 (?j1 + k * step), g (?j1 + k * step) (val ?s1 (?j1 + k * step)))"
    and u2: "\<And>x. x < N \<Longrightarrow> (\<forall>k<c2. x \<noteq> ?j1 + k * step \<and> x \<noteq> off + (?j1 + k * step)) \<Longrightarrow>
          val ?s2 x = val ?s1 x"
    using for_step_pairs[OF b2 st own1 order_refl N2, of ?j1] by blast
  have sl2: "slot ?s2 = slot ?s1"
    using b2s st by (rule for_step_slot_const)
  have jN: "j < N" "off + j < N"
    using j(2) oN by simp_all
  show ?thesis
  proof (intro conjI impI)
    assume lt: "j < bnd"
    have m: "m < c1"
    proof (rule ccontr)
      assume "\<not> m < c1"
      then have "c1 * step \<le> m * step"
        by (intro mult_le_mono1) simp
      then show False
        using ge1 lt j(1) by linarith
    qed
    have fresh: "\<forall>k<c2. x \<noteq> ?j1 + k * step \<and> x \<noteq> off + (?j1 + k * step)"
      if "x = j \<or> x = off + j" for x
    proof (intro allI impI)
      fix k assume "k < c2"
      then have "?j1 + k * step < off"
        by (rule lt2)
      moreover have "j < ?j1"
        using lt ge1 j1 by simp
      ultimately show "x \<noteq> ?j1 + k * step \<and> x \<noteq> off + (?j1 + k * step)"
        using that j(2) by auto
    qed
    show "val ?s2 j = fst (h j (val s j) (val s (off + j)))"
      using u2[OF jN(1) fresh] v1[OF m] by (simp add: j(1))
    show "val ?s2 (off + j) = snd (h j (val s j) (val s (off + j)))"
      using u2[OF jN(2) fresh] v1[OF m] by (simp add: j(1))
  next
    assume ge: "bnd \<le> j"
    have m: "c1 \<le> m"
    proof (rule ccontr)
      assume "\<not> c1 \<le> m"
      then have "i + m * step < bnd"
        by (intro lt1) simp
      then show False
        using ge j(1) by simp
    qed
    then have jj: "j = ?j1 + (m - c1) * step"
      unfolding j1 j(1) by (simp add: add.assoc flip: distrib_right)
    have k2: "m - c1 < c2"
    proof (rule ccontr)
      assume "\<not> m - c1 < c2"
      then have "c2 * step \<le> (m - c1) * step"
        by (intro mult_le_mono1) simp
      then show False
        using ge2 jj j(2) by linarith
    qed
    have fresh: "\<forall>k<c1. x \<noteq> i + k * step \<and> x \<noteq> off + (i + k * step)"
      if "x = j \<or> x = off + j" for x
    proof (intro allI impI)
      fix k assume "k < c1"
      then have "i + k * step < bnd"
        by (rule lt1)
      then show "x \<noteq> i + k * step \<and> x \<noteq> off + (i + k * step)"
        using that ge j(2) by auto
    qed
    have s1j: "val ?s1 j = val s j"
      using u1[OF jN(1) fresh] by simp
    show "val ?s2 j = val s j"
      using v2[OF k2] s1j by (simp flip: jj)
    show "val ?s2 (off + j) = g j (val s j)"
      using v2[OF k2] s1j by (simp flip: jj)
    show "slot ?s2 j = slot s j" "slot ?s2 (off + j) = slot s (off + j)"
      using p1[OF fresh] by (simp_all add: sl2)
  qed
qed

lemma odd_butterfly_step_effect:
  assumes "own (4 * n) s" "j < 2 * n"
  shows "pair_effect (4 * n) j (2 * n + j)
    (\<lambda>x y. if odd j then (fst (fft_butterfly_sqrt2 B x y j limbs w),
                          fst (snd (fft_butterfly_sqrt2 B x y j limbs w)))
           else fft_butterfly B x y (j div 2) limbs w) s (odd_butterfly_step B n w limbs j s)"
proof (cases "odd j")
  case True
  then show ?thesis
    unfolding odd_butterfly_step_def
    using place_sqrt2_pair_effect[where g="\<lambda>x y. fft_butterfly_sqrt2 B x y j limbs w"
        and a=j and b="2 * n + j" and N="4 * n" and s=s] assms
    by simp
next
  case False
  then show ?thesis
    unfolding odd_butterfly_step_def
    using place_pair_effect[where h="\<lambda>x y. fft_butterfly B x y (j div 2) limbs w"
        and a=j and b="2 * n + j" and N="4 * n" and s=s] assms
    by simp
qed

lemma even_butterfly_step_effect:
  assumes "own (4 * n) s" "j < 2 * n"
  shows "pair_effect (4 * n) j (2 * n + j)
    (\<lambda>x y. fft_butterfly B x y j limbs (w div 2)) s (even_butterfly_step B n w limbs j s)"
  unfolding even_butterfly_step_def
  using place_pair_effect[where h="\<lambda>x y. fft_butterfly B x y j limbs (w div 2)"
      and a=j and b="2 * n + j" and N="4 * n" and s=s] assms
  by simp

lemma odd_adjust_step_effect:
  assumes "own (4 * n) s" "j < 2 * n"
  shows "pair_effect (4 * n) j (2 * n + j)
    (\<lambda>x y. (x, if odd i then fst (fft_adjust_sqrt2 B x j limbs w)
                else fft_adjust B x (j div 2) limbs w)) s (odd_adjust_step B n w limbs i j s)"
proof (cases "odd i")
  case True
  then show ?thesis
    unfolding odd_adjust_step_def
    using write_slot_temp_pair_effect[where g="\<lambda>x. fft_adjust_sqrt2 B x j limbs w"
        and a=j and b="2 * n + j" and N="4 * n" and s=s] assms
    by (simp add: add.commute)
next
  case False
  then show ?thesis
    unfolding odd_adjust_step_def
    using write_slot_pair_effect[where g="\<lambda>x y. fft_adjust B x (j div 2) limbs w"
        and a=j and b="2 * n + j" and N="4 * n" and s=s] assms
    by (simp add: add.commute)
qed

lemma even_adjust_step_effect:
  assumes "own (4 * n) s" "j < 2 * n"
  shows "pair_effect (4 * n) j (2 * n + j)
    (\<lambda>x y. (x, fft_adjust B x j limbs (w div 2))) s (even_adjust_step B n w limbs j s)"
  unfolding even_adjust_step_def
  using write_slot_pair_effect[where g="\<lambda>x y. fft_adjust B x j limbs (w div 2)"
      and a=j and b="2 * n + j" and N="4 * n" and s=s] assms
  by (simp add: add.commute)

lemma adjust_steps_slot:
  "slot (odd_adjust_step B n w limbs i j s) = slot s"
  "slot (even_adjust_step B n w limbs j s) = slot s"
  by (simp_all add: odd_adjust_step_def even_adjust_step_def write_slot_def write_slot_temp_def)

lemma sqrt2_layer_pointwise:
  assumes "own (4 * n) s" "0 < n1" "trunc \<le> 4 * n" "j = i + m * n1" "j < 2 * n"
  shows "(j < trunc - 2 * n \<longrightarrow>
      val (sqrt2_layer B n w n1 trunc limbs i s) j =
        fst (if odd w then
               (if odd j then (fst (fft_butterfly_sqrt2 B (val s j) (val s (2 * n + j)) j limbs w),
                               fst (snd (fft_butterfly_sqrt2 B (val s j) (val s (2 * n + j)) j limbs w)))
                else fft_butterfly B (val s j) (val s (2 * n + j)) (j div 2) limbs w)
             else fft_butterfly B (val s j) (val s (2 * n + j)) j limbs (w div 2)) \<and>
      val (sqrt2_layer B n w n1 trunc limbs i s) (2 * n + j) =
        snd (if odd w then
               (if odd j then (fst (fft_butterfly_sqrt2 B (val s j) (val s (2 * n + j)) j limbs w),
                               fst (snd (fft_butterfly_sqrt2 B (val s j) (val s (2 * n + j)) j limbs w)))
                else fft_butterfly B (val s j) (val s (2 * n + j)) (j div 2) limbs w)
             else fft_butterfly B (val s j) (val s (2 * n + j)) j limbs (w div 2))) \<and>
    (trunc - 2 * n \<le> j \<longrightarrow>
      val (sqrt2_layer B n w n1 trunc limbs i s) j = val s j \<and>
      val (sqrt2_layer B n w n1 trunc limbs i s) (2 * n + j) =
        (if odd w then
           (if odd i then fst (fft_adjust_sqrt2 B (val s j) j limbs w)
            else fft_adjust B (val s j) (j div 2) limbs w)
         else fft_adjust B (val s j) j limbs (w div 2)) \<and>
      slot (sqrt2_layer B n w n1 trunc limbs i s) j = slot s j \<and>
      slot (sqrt2_layer B n w n1 trunc limbs i s) (2 * n + j) = slot s (2 * n + j))"
proof (cases "odd w")
  case True
  have bo: "trunc - 2 * n \<le> 2 * n" and oN: "2 * (2 * n) \<le> 4 * n"
    using assms(3) by simp_all
  note e1 = odd_butterfly_step_effect[where n=n and B=B and limbs=limbs and w=w]
  note e2 = odd_adjust_step_effect[where n=n and B=B and limbs=limbs and w=w]
  have "j' < 2 * n" if "j' < trunc - 2 * n" for j'
    using that bo by simp
  note L = two_loops_column[where ?body1.0="odd_butterfly_step B n w limbs"
        and ?body2.0="odd_adjust_step B n w limbs i" and N="4 * n" and off="2 * n"
        and bnd="trunc - 2 * n" and step=n1 and s=s and j=j and i=i and m=m,
        OF e1[OF _ this] e2 adjust_steps_slot(1) assms(2,1) bo oN assms(4,5)]
  show ?thesis
    using L True by (simp add: sqrt2_layer_def case_prod_beta)
next
  case False
  have bo: "trunc - 2 * n \<le> 2 * n" and oN: "2 * (2 * n) \<le> 4 * n"
    using assms(3) by simp_all
  note e1 = even_butterfly_step_effect[where n=n and B=B and limbs=limbs and w=w]
  note e2 = even_adjust_step_effect[where n=n and B=B and limbs=limbs and w=w]
  have "j' < 2 * n" if "j' < trunc - 2 * n" for j'
    using that bo by simp
  note L = two_loops_column[where ?body1.0="even_butterfly_step B n w limbs"
        and ?body2.0="even_adjust_step B n w limbs" and N="4 * n" and off="2 * n"
        and bnd="trunc - 2 * n" and step=n1 and s=s and j=j and i=i and m=m,
        OF e1[OF _ this] e2 adjust_steps_slot(2) assms(2,1) bo oN assms(4,5)]
  show ?thesis
    using L False by (simp add: sqrt2_layer_def case_prod_beta)
qed

text \<open>
  Claim C6, as the code has it. The sqrt2 layer of the column of slot \<open>j < 2 * n\<close>
  (column \<open>j mod n1\<close>), on the documented parameters and a signal without aliasing.
  Below the truncation boundary (\<open>j < trunc - 2 * n\<close>) the slots \<open>j\<close> and \<open>2 * n + j\<close>
  receive the two results of a butterfly of their contents: when \<open>w\<close> is odd the
  sqrt2-adjusted butterfly of index \<open>j\<close> for odd \<open>j\<close> but the plain butterfly of index
  \<open>j div 2\<close> and weight \<open>w\<close> for even \<open>j\<close>; when \<open>w\<close> is even the plain butterfly of index
  \<open>j\<close> and weight \<open>w div 2\<close>. At or beyond the boundary only slot \<open>2 * n + j\<close> is written,
  with the one-sided adjust of the contents of slot \<open>j\<close> (chosen by the same parities);
  slot \<open>j\<close> keeps its contents and both slots keep their buffers.
\<close>

theorem sqrt2_layer_column:
  assumes "mfa_params b c n n1 trunc" "own (4 * n) s" "j < 2 * n"
  shows "(j < trunc - 2 * n \<longrightarrow>
      (val (sqrt2_layer B n w n1 trunc limbs (j mod n1) s) j,
       val (sqrt2_layer B n w n1 trunc limbs (j mod n1) s) (2 * n + j)) =
        (if odd w then
           (if odd j then (fst (fft_butterfly_sqrt2 B (val s j) (val s (2 * n + j)) j limbs w),
                           fst (snd (fft_butterfly_sqrt2 B (val s j) (val s (2 * n + j)) j limbs w)))
            else fft_butterfly B (val s j) (val s (2 * n + j)) (j div 2) limbs w)
         else fft_butterfly B (val s j) (val s (2 * n + j)) j limbs (w div 2))) \<and>
    (trunc - 2 * n \<le> j \<longrightarrow>
      val (sqrt2_layer B n w n1 trunc limbs (j mod n1) s) j = val s j \<and>
      val (sqrt2_layer B n w n1 trunc limbs (j mod n1) s) (2 * n + j) =
        (if odd w then
           (if odd j then fst (fft_adjust_sqrt2 B (val s j) j limbs w)
            else fft_adjust B (val s j) (j div 2) limbs w)
         else fft_adjust B (val s j) j limbs (w div 2)) \<and>
      slot (sqrt2_layer B n w n1 trunc limbs (j mod n1) s) j = slot s j \<and>
      slot (sqrt2_layer B n w n1 trunc limbs (j mod n1) s) (2 * n + j) = slot s (2 * n + j))"
proof -
  note p = mfa_params_facts[OF assms(1)]
  have col: "j = j mod n1 + (j div n1) * n1"
    by simp
  have "even n1"
    by (simp add: p(1))
  then have par: "odd (j mod n1) = odd j"
    using dvd_mod_iff[of 2 n1 j] by simp
  show ?thesis
    using sqrt2_layer_pointwise[OF assms(2) p(5,6) col assms(3), of B w limbs]
    by (simp add: par prod_eq_iff)
qed

theorem sqrt2_layer_column_witness:
  "val (sqrt2_layer sym_bfly 4 1 2 12 0 1 signal0) 1 = Op Sqrt2_u [Init 1, Init 9] [1, 0, 1] \<and>
   val (sqrt2_layer sym_bfly 4 1 2 12 0 1 signal0) 9 = Op Sqrt2_v [Init 1, Init 9] [1, 0, 1] \<and>
   val (sqrt2_layer sym_bfly 4 1 2 12 0 0 signal0) 2 = Op Bfly_u [Init 2, Init 10] [1, 0, 1] \<and>
   val (sqrt2_layer sym_bfly 4 1 2 12 0 1 signal0) 5 = Init 5 \<and>
   val (sqrt2_layer sym_bfly 4 1 2 12 0 1 signal0) 13 = Op Adjust_sqrt2 [Init 5] [5, 0, 1] \<and>
   slot (sqrt2_layer sym_bfly 4 1 2 12 0 1 signal0) 13 = 13 \<and>
   val (sqrt2_layer sym_bfly 4 2 2 12 0 1 signal0) 1 = Op Bfly_u [Init 1, Init 9] [1, 0, 1]"
proof -
  have own: "own (4 * 4) signal0"
    by (simp add: own_def signal0_def upt_conv_Cons)
  have par: "mfa_params 0 1 4 2 12"
    by (simp add: mfa_params_def)
  note th = sqrt2_layer_column[OF par own, where B=sym_bfly and limbs=0]
  have vs: "val signal0 k = Init k" "slot signal0 k = k" for k
    by (simp_all add: val_def signal0_def)
  show ?thesis
    using th[of 1 1] th[of 2 1] th[of 5 1] th[of 1 2]
    by (simp add: vs sym_bfly_def)
qed

text \<open>
  The claim as stated fails: with \<open>w\<close> odd, slot 0 of column 0 receives the plain
  butterfly, not the sqrt2-adjusted one.
\<close>

theorem sqrt2_layer_odd_weight_counterexample:
  "val (sqrt2_layer sym_bfly 2 1 2 8 0 0 signal0) 0 \<noteq>
   fst (fft_butterfly_sqrt2 sym_bfly (val signal0 0) (val signal0 4) 0 0 1)"
  by code_simp








































end
